theory Spec2Isabelle
  imports Main "HOL-Library.Multiset"
begin

section \<open>Characters and the character classes of the patterns\<close>

text \<open>
  A line of the scanned file is a Python \<open>str\<close>. It is modelled as a \<open>string\<close>
  whose characters are the code points 0 to 255. The classes below are the ones Python's
  \<open>re\<close> module uses for a \<open>str\<close> pattern (Unicode matching) on these code points.
\<close>

definition code :: "char \<Rightarrow> nat" where
  "code c = of_char c"

text \<open>The class \<^verbatim>\<open>\d\<close>: a decimal digit.\<close>

definition is_digit :: "char \<Rightarrow> bool" where
  "is_digit c \<longleftrightarrow> 48 \<le> code c \<and> code c \<le> 57"

text \<open>The bracket class \<open>[a-zA-Z_]\<close>.\<close>

definition is_idstart :: "char \<Rightarrow> bool" where
  "is_idstart c \<longleftrightarrow>
     (97 \<le> code c \<and> code c \<le> 122) \<or> (65 \<le> code c \<and> code c \<le> 90) \<or> code c = 95"

text \<open>The class \<^verbatim>\<open>\s\<close>: white space.\<close>

definition is_space :: "char \<Rightarrow> bool" where
  "is_space c \<longleftrightarrow>
     (9 \<le> code c \<and> code c \<le> 13) \<or> (28 \<le> code c \<and> code c \<le> 32)
     \<or> code c = 133 \<or> code c = 160"

text \<open>The class \<^verbatim>\<open>\w\<close>: alphanumeric characters and the underscore.\<close>

definition is_word :: "char \<Rightarrow> bool" where
  "is_word c \<longleftrightarrow>
     is_idstart c \<or> is_digit c
     \<or> code c = 170 \<or> code c = 178 \<or> code c = 179 \<or> code c = 181
     \<or> code c = 185 \<or> code c = 186 \<or> (188 \<le> code c \<and> code c \<le> 190)
     \<or> (192 \<le> code c \<and> code c \<le> 214) \<or> (216 \<le> code c \<and> code c \<le> 246)
     \<or> 248 \<le> code c"

datatype cclass = Lit char | Word | Digit | Space | IdStart

fun cmatch :: "cclass \<Rightarrow> char \<Rightarrow> bool" where
  "cmatch (Lit a) c = (c = a)"
| "cmatch Word c = is_word c"
| "cmatch Digit c = is_digit c"
| "cmatch Space c = is_space c"
| "cmatch IdStart c = is_idstart c"

section \<open>The regular expressions and the matching engine\<close>

text \<open>
  A pattern is a sequence of items: one character of a class, a greedy \<open>*\<close> or \<open>+\<close> of a
  class, the word boundary \<^verbatim>\<open>\b\<close>, and the two parentheses of a capturing group.
\<close>

datatype rx = One cclass | Star cclass | Plus cclass | Bnd | Open | Close

text \<open>
  \<^verbatim>\<open>\b\<close> holds between a word character and a non-word character, the two ends of the
  string counting as non-word. The text before the position is kept reversed.
\<close>

definition word_boundary :: "string \<Rightarrow> string \<Rightarrow> bool" where
  "word_boundary b s \<longleftrightarrow>
     (case b of [] \<Rightarrow> False | p # _ \<Rightarrow> is_word p) \<noteq> (case s of [] \<Rightarrow> False | x # _ \<Rightarrow> is_word x)"

text \<open>
  The backtracking matcher. \<open>rx_match r b s ms\<close> matches the items \<open>r\<close> at the position
  whose preceding text is \<open>rev b\<close> and whose following text is \<open>s\<close>; \<open>ms\<close> collects the
  positions of the group parentheses passed so far. A repetition takes as many
  characters as it can and gives them back one at a time when the rest fails.
\<close>

fun rx_match :: "rx list \<Rightarrow> string \<Rightarrow> string \<Rightarrow> nat list \<Rightarrow> (string \<times> string \<times> nat list) option" where
  "rx_match [] b s ms = Some (b, s, ms)"
| "rx_match (One c # r) b [] ms = None"
| "rx_match (One c # r) b (x # xs) ms =
     (if cmatch c x then rx_match r (x # b) xs ms else None)"
| "rx_match (Star c # r) b [] ms = rx_match r b [] ms"
| "rx_match (Star c # r) b (x # xs) ms =
     (if cmatch c x
      then (case rx_match (Star c # r) (x # b) xs ms of
              Some res \<Rightarrow> Some res
            | None \<Rightarrow> rx_match r b (x # xs) ms)
      else rx_match r b (x # xs) ms)"
| "rx_match (Plus c # r) b [] ms = None"
| "rx_match (Plus c # r) b (x # xs) ms =
     (if cmatch c x then rx_match (Star c # r) (x # b) xs ms else None)"
| "rx_match (Bnd # r) b s ms = (if word_boundary b s then rx_match r b s ms else None)"
| "rx_match (Open # r) b s ms = rx_match r b s (ms @ [length b])"
| "rx_match (Close # r) b s ms = rx_match r b s (ms @ [length b])"

text \<open>A match object: where the match starts and ends, and the text of its groups.\<close>

record re_match =
  m_start :: nat
  m_end :: nat
  m_groups :: "string list"

fun spans :: "nat list \<Rightarrow> (nat \<times> nat) list" where
  "spans (a # b # r) = (a, b) # spans r"
| "spans _ = []"

definition mk_match :: "string \<Rightarrow> string \<Rightarrow> string \<Rightarrow> nat list \<Rightarrow> re_match" where
  "mk_match b b' s' ms =
     \<lparr> m_start = length b, m_end = length b',
       m_groups = map (\<lambda>(i, j). take (j - i) (drop i (rev b' @ s'))) (spans ms) \<rparr>"

datatype error = IndexError | PatternError | IOError | UnicodeDecodeError

text \<open>\<open>match.group(k)\<close> for \<open>k \<ge> 1\<close>; a group the pattern does not have raises.\<close>

definition group :: "re_match \<Rightarrow> nat \<Rightarrow> error + string" where
  "group m k = (if 1 \<le> k \<and> k \<le> length (m_groups m) then Inr (m_groups m ! (k - 1))
                else Inl IndexError)"

text \<open>
  \<open>re.finditer\<close>: the matches from left to right, each search starting where the last
  match ended. After a match that consumed nothing the scan moves on by one character.
\<close>

function finditer_from :: "rx list \<Rightarrow> string \<Rightarrow> string \<Rightarrow> re_match list" where
  "finditer_from r b s =
     (case rx_match r b s [] of
        Some (b', s', ms) \<Rightarrow>
          (if length s' < length s then mk_match b b' s' ms # finditer_from r b' s'
           else mk_match b b' s' ms #
                (case s of [] \<Rightarrow> [] | x # xs \<Rightarrow> finditer_from r (x # b) xs))
      | None \<Rightarrow> (case s of [] \<Rightarrow> [] | x # xs \<Rightarrow> finditer_from r (x # b) xs))"
  by pat_completeness auto
termination
  by (relation "measure (\<lambda>(r, b, s). length s)") auto

definition finditer :: "rx list \<Rightarrow> string \<Rightarrow> re_match list" where
  "finditer r line = finditer_from r [] line"

text \<open>\<open>re.search\<close>, used for its truth value: is there a match at some position.\<close>

fun search_from :: "rx list \<Rightarrow> string \<Rightarrow> string \<Rightarrow> bool" where
  "search_from r b [] = (rx_match r b [] [] \<noteq> None)"
| "search_from r b (x # xs) = (rx_match r b (x # xs) [] \<noteq> None \<or> search_from r (x # b) xs)"

definition re_search :: "rx list \<Rightarrow> string \<Rightarrow> bool" where
  "re_search r line = search_from r [] line"

subsection \<open>The three patterns of the module\<close>

definition ws :: "rx" where
  "ws = Star Space"

definition lit :: "string \<Rightarrow> rx list" where
  "lit s = map (\<lambda>c. One (Lit c)) s"

text \<open>\<^verbatim>\<open>\b([a-zA-Z_]\w*)\s*\[\s*(\d+)\s*\]\<close>\<close>

definition vector_access_pattern :: "rx list" where
  "vector_access_pattern =
     [Bnd, Open, One IdStart, Star Word, Close, ws, One (Lit CHR ''[''), ws,
      Open, Plus Digit, Close, ws, One (Lit CHR '']'')]"

text \<open>\<^verbatim>\<open>\b([a-zA-Z_]\w*)\.at\s*\(\s*(\d+)\s*\)\<close>\<close>

definition vector_at_pattern :: "rx list" where
  "vector_at_pattern =
     [Bnd, Open, One IdStart, Star Word, Close] @ lit ''.at'' @
     [ws, One (Lit CHR ''(''), ws, Open, Plus Digit, Close, ws, One (Lit CHR '')'')]"

text \<open>\<^verbatim>\<open>\b([a-zA-Z_]\w*)\.empty\s*\(\s*\)\<close>\<close>

definition vector_empty_check_pattern :: "rx list" where
  "vector_empty_check_pattern =
     [Bnd, Open, One IdStart, Star Word, Close] @ lit ''.empty'' @
     [ws, One (Lit CHR ''(''), ws, One (Lit CHR '')'')]"

text \<open>
  The pattern built at run time, \<^verbatim>\<open>rf'\b{vector}\.empty\s*\(\s*\)'\<close>. The name is pasted
  into the pattern text, so it stands for itself only when none of its characters is
  special in a pattern; any other name is outside what is modelled and is an error here.
\<close>

definition special_chars :: "string" where
  "special_chars = ''.^$*+?{}[]|()'' @ [CHR 0x5C]"

definition empty_check_regex :: "string \<Rightarrow> error + rx list" where
  "empty_check_regex vector =
     (if \<exists>c \<in> set vector. c \<in> set special_chars then Inl PatternError
      else Inr ([Bnd] @ lit vector @ lit ''.empty'' @
                [ws, One (Lit CHR ''(''), ws, One (Lit CHR '')'')]))"

section \<open>The scanner\<close>

definition bind_err :: "error + 'a \<Rightarrow> ('a \<Rightarrow> error + 'b) \<Rightarrow> error + 'b" where
  "bind_err x f = (case x of Inl e \<Rightarrow> Inl e | Inr v \<Rightarrow> f v)"

fun map_err :: "('a \<Rightarrow> error + 'b) \<Rightarrow> 'a list \<Rightarrow> error + 'b list" where
  "map_err f [] = Inr []"
| "map_err f (x # xs) =
     bind_err (f x) (\<lambda>y. bind_err (map_err f xs) (\<lambda>ys. Inr (y # ys)))"

text \<open>The decimal text of a line number, as an f-string renders it.\<close>

definition digit_char :: "nat \<Rightarrow> char" where
  "digit_char d = char_of (48 + d)"

fun str_nat :: "nat \<Rightarrow> string" where
  "str_nat n = (if n < 10 then [digit_char n] else str_nat (n div 10) @ [digit_char (n mod 10)])"

text \<open>The apostrophe that quotes a name inside a message.\<close>

definition apos :: "string" where
  "apos = [CHR 0x27]"

definition access_msg :: "string \<Rightarrow> string \<Rightarrow> nat \<Rightarrow> string" where
  "access_msg vector_name index line_num =
     ''Warning: Potential out-of-range access using '' @ apos @ vector_name @ ''['' @ index
     @ '']'' @ apos @ '' at line '' @ str_nat line_num"

definition at_msg :: "string \<Rightarrow> string \<Rightarrow> nat \<Rightarrow> string" where
  "at_msg vector_name index line_num =
     ''Info: Safe access found using '' @ apos @ vector_name @ ''.at('' @ index
     @ '')'' @ apos @ '' at line '' @ str_nat line_num"

definition missing_msg :: "string \<Rightarrow> nat \<Rightarrow> string" where
  "missing_msg vector line_num =
     ''Warning: No empty() check found before accessing '' @ apos @ vector
     @ apos @ '' at line '' @ str_nat line_num"

subsection \<open>\<open>check_vector_access\<close>\<close>

definition access_issue :: "nat \<Rightarrow> re_match \<Rightarrow> error + string" where
  "access_issue line_num m =
     bind_err (group m 1) (\<lambda>vector_name.
     bind_err (group m 2) (\<lambda>index.
     Inr (access_msg vector_name index line_num)))"

definition at_issue :: "nat \<Rightarrow> re_match \<Rightarrow> error + string" where
  "at_issue line_num m =
     bind_err (group m 1) (\<lambda>vector_name.
     bind_err (group m 2) (\<lambda>index.
     Inr (at_msg vector_name index line_num)))"

definition line_issues :: "nat \<times> string \<Rightarrow> error + string list" where
  "line_issues = (\<lambda>(line_num, line).
     bind_err (map_err (access_issue line_num) (finditer vector_access_pattern line)) (\<lambda>a.
     bind_err (map_err (at_issue line_num) (finditer vector_at_pattern line)) (\<lambda>b.
     Inr (a @ b))))"

definition check_vector_access :: "string list \<Rightarrow> error + string list" where
  "check_vector_access file_lines =
     bind_err (map_err line_issues (List.enumerate 1 file_lines)) (\<lambda>iss. Inr (concat iss))"

subsection \<open>\<open>check_empty_before_access\<close>\<close>

text \<open>
  The Python set \<open>vectors_accessed\<close> is kept as the list of its elements in the order
  they were first added.
\<close>

definition set_add :: "'a \<Rightarrow> 'a list \<Rightarrow> 'a list" where
  "set_add x xs = (if x \<in> set xs then xs else xs @ [x])"

definition access_record :: "nat \<Rightarrow> re_match \<Rightarrow> error + (string \<times> nat)" where
  "access_record line_num m = bind_err (group m 1) (\<lambda>vector_name. Inr (vector_name, line_num))"

definition line_records :: "nat \<times> string \<Rightarrow> error + (string \<times> nat) list" where
  "line_records = (\<lambda>(line_num, line).
     bind_err (map_err (access_record line_num) (finditer vector_access_pattern line)) (\<lambda>a.
     bind_err (map_err (access_record line_num) (finditer vector_at_pattern line)) (\<lambda>b.
     Inr (a @ b))))"

definition collect_accessed :: "string list \<Rightarrow> error + (string \<times> nat) list" where
  "collect_accessed file_lines =
     bind_err (map_err line_records (List.enumerate 1 file_lines)) (\<lambda>rs.
     Inr (fold set_add (concat rs) []))"

text \<open>
  \<open>any(re.search(..., line) for line in file_lines)\<close>: the pattern is built for each
  line in turn and the scan stops at the first line that matches.
\<close>

fun any_empty_check :: "string \<Rightarrow> string list \<Rightarrow> error + bool" where
  "any_empty_check vector [] = Inr False"
| "any_empty_check vector (line # rest) =
     bind_err (empty_check_regex vector) (\<lambda>r.
     if re_search r line then Inr True else any_empty_check vector rest)"

definition missing_issue :: "string list \<Rightarrow> string \<times> nat \<Rightarrow> error + string list" where
  "missing_issue file_lines = (\<lambda>(vector, line_num).
     bind_err (any_empty_check vector file_lines) (\<lambda>empty_check_found.
     Inr (if \<not> empty_check_found then [missing_msg vector line_num] else [])))"

text \<open>
  Iterating a Python set visits every element once, in an order the language does not
  fix (for strings it changes with the hash seed of the process). The order is the
  parameter \<open>iter\<close>, applied to the elements of the set.
\<close>

definition set_iteration :: "((string \<times> nat) list \<Rightarrow> (string \<times> nat) list) \<Rightarrow> bool" where
  "set_iteration iter \<longleftrightarrow> (\<forall>xs. mset (iter xs) = mset xs)"

definition check_empty_before_access ::
    "((string \<times> nat) list \<Rightarrow> (string \<times> nat) list) \<Rightarrow> string list \<Rightarrow> error + string list" where
  "check_empty_before_access iter file_lines =
     bind_err (collect_accessed file_lines) (\<lambda>vectors_accessed.
     bind_err (map_err (missing_issue file_lines) (iter vectors_accessed)) (\<lambda>iss.
     Inr (concat iss)))"

subsection \<open>\<open>analyze_cpp_file\<close>\<close>

text \<open>
  Opening and reading the file is the parameter \<open>fs\<close>: the lines of the file at a path,
  or the error raised. Standard output is the list of the lines printed so far.
\<close>

definition report :: "string \<Rightarrow> string list \<Rightarrow> string list" where
  "report file_path issues =
     (if issues = [] then [''No issues found in '' @ file_path]
      else (''Issues found in '' @ file_path @ '':'') # map (\<lambda>issue. ''  '' @ issue) issues)"

definition analyze_cpp_file ::
    "((string \<times> nat) list \<Rightarrow> (string \<times> nat) list) \<Rightarrow> (string \<Rightarrow> error + string list)
     \<Rightarrow> string \<Rightarrow> string list \<Rightarrow> (error + unit) \<times> string list" where
  "analyze_cpp_file iter fs file_path out =
     (case fs file_path of
        Inl e \<Rightarrow> (Inl e, out)
      | Inr file_lines \<Rightarrow>
          (case check_vector_access file_lines of
             Inl e \<Rightarrow> (Inl e, out)
           | Inr i1 \<Rightarrow>
               (case check_empty_before_access iter file_lines of
                  Inl e \<Rightarrow> (Inl e, out)
                | Inr i2 \<Rightarrow> (Inr (), out @ report file_path (i1 @ i2)))))"

text \<open>
  The two statements that read the file, \<^verbatim>\<open>open(file_path, 'r', encoding='utf-8')\<close> and
  \<^verbatim>\<open>file.readlines()\<close>. A path of the disk cannot be opened, and \<open>open\<close> raises an
  \<open>OSError\<close> (which Python also calls \<open>IOError\<close>); or it holds bytes that are not UTF-8, and
  reading raises a \<open>UnicodeDecodeError\<close>, which is a \<open>ValueError\<close> and no \<open>IOError\<close>; or it
  holds text, and reading gives its lines.
\<close>

datatype disk_file = NotOpenable | NotDecodable | Readable "string list"

definition read_file :: "(string \<Rightarrow> disk_file) \<Rightarrow> string \<Rightarrow> error + string list" where
  "read_file disk file_path =
     (case disk file_path of
        NotOpenable \<Rightarrow> Inl IOError
      | NotDecodable \<Rightarrow> Inl UnicodeDecodeError
      | Readable file_lines \<Rightarrow> Inr file_lines)"

section \<open>Auxiliary definitions for the proofs\<close>

text \<open>The number of group parentheses of a pattern.\<close>
fun marks :: "rx list \<Rightarrow> nat" where
  "marks [] = 0"
| "marks (Open # r) = Suc (marks r)"
| "marks (Close # r) = Suc (marks r)"
| "marks (_ # r) = marks r"

text \<open>An identifier: a character of \<open>[a-zA-Z_]\<close> followed by word characters.\<close>
definition is_identifier :: "string \<Rightarrow> bool" where
  "is_identifier n \<longleftrightarrow> (case n of [] \<Rightarrow> False | c # cs \<Rightarrow> is_idstart c \<and> list_all is_word cs)"

text \<open>The pattern \<open>r\<close> cannot start with a character of the class \<open>c\<close>: after a
  repetition of \<open>c\<close>, giving a character back never helps.\<close>
definition blocks :: "cclass \<Rightarrow> rx list \<Rightarrow> bool" where
  "blocks c r \<longleftrightarrow> (\<forall>b x xs ms. cmatch c x \<longrightarrow> rx_match r b (x # xs) ms = None)"

text \<open>The run-time pattern for a name that stands for itself.\<close>
definition empty_check_rx :: "string \<Rightarrow> rx list" where
  "empty_check_rx vector =
     [Bnd] @ lit vector @ lit ''.empty'' @ [ws, One (Lit CHR ''(''), ws, One (Lit CHR '')'')]"

text \<open>The issues of one line, when no group is missing.\<close>
definition line_issues_of :: "nat \<times> string \<Rightarrow> string list" where
  "line_issues_of = (\<lambda>(line_num, line).
     map (\<lambda>m. access_msg (m_groups m ! 0) (m_groups m ! 1) line_num)
         (finditer vector_access_pattern line)
     @ map (\<lambda>m. at_msg (m_groups m ! 0) (m_groups m ! 1) line_num)
         (finditer vector_at_pattern line))"

text \<open>The access records of one line, when no group is missing.\<close>
definition line_records_of :: "nat \<times> string \<Rightarrow> (string \<times> nat) list" where
  "line_records_of = (\<lambda>(line_num, line).
     map (\<lambda>m. (m_groups m ! 0, line_num)) (finditer vector_access_pattern line)
     @ map (\<lambda>m. (m_groups m ! 0, line_num)) (finditer vector_at_pattern line))"

text \<open>The set of access records of a file, in insertion order.\<close>
definition vectors_accessed :: "string list \<Rightarrow> (string \<times> nat) list" where
  "vectors_accessed file_lines =
     fold set_add (concat (map line_records_of (List.enumerate 1 file_lines))) []"

text \<open>The run-time pattern of a name is found in some line.\<close>
definition empty_check_found :: "string list \<Rightarrow> string \<Rightarrow> bool" where
  "empty_check_found file_lines vector = list_ex (re_search (empty_check_rx vector)) file_lines"

text \<open>The warning of one access record, if any.\<close>
definition missing_of :: "string list \<Rightarrow> string \<times> nat \<Rightarrow> string list" where
  "missing_of file_lines = (\<lambda>(vector, line_num).
     if \<not> empty_check_found file_lines vector then [missing_msg vector line_num] else [])"

text \<open>The matches of a pattern at every position of a string, overlapping ones included.\<close>
fun matches_from :: "rx list \<Rightarrow> string \<Rightarrow> string \<Rightarrow> re_match list" where
  "matches_from r b [] =
     (case rx_match r b [] [] of Some (b', s', ms) \<Rightarrow> [mk_match b b' s' ms] | None \<Rightarrow> [])"
| "matches_from r b (x # xs) =
     (case rx_match r b (x # xs) [] of Some (b', s', ms) \<Rightarrow> [mk_match b b' s' ms] | None \<Rightarrow> [])
     @ matches_from r (x # b) xs"

text \<open>All the positions of a line at which a pattern matches.\<close>
definition occurrences :: "rx list \<Rightarrow> string \<Rightarrow> re_match list" where
  "occurrences r line = matches_from r [] line"

text \<open>One of the two access patterns has a match on the given line (counted from 1) whose
  first group is the name.\<close>
definition accessed_on :: "string list \<Rightarrow> string \<Rightarrow> nat \<Rightarrow> bool" where
  "accessed_on file_lines name line_num \<longleftrightarrow>
     1 \<le> line_num \<and> line_num \<le> length file_lines \<and>
     list_ex (\<lambda>m. group m 1 = Inr name)
       (finditer vector_access_pattern (file_lines ! (line_num - 1))
        @ finditer vector_at_pattern (file_lines ! (line_num - 1)))"

text \<open>The number written by a string of decimal digits.\<close>
definition nat_of_digits :: "string \<Rightarrow> nat" where
  "nat_of_digits ds = foldl (\<lambda>acc c. 10 * acc + (of_char c - 48)) 0 ds"



text \<open>The text of a safe access: name, \<open>.at\<close>, white space, parenthesis, white space, digits,
  white space, parenthesis.\<close>
definition at_text :: "string \<Rightarrow> string \<Rightarrow> string \<Rightarrow> string \<Rightarrow> string \<Rightarrow> string" where
  "at_text name sp1 sp2 d sp3 = name @ ''.at'' @ sp1 @ ''('' @ sp2 @ d @ sp3 @ '')''"

text \<open>Some line of the file has a match of the empty-check pattern whose group is the name.\<close>
definition has_empty_check :: "string list \<Rightarrow> string \<Rightarrow> bool" where
  "has_empty_check file_lines name =
     list_ex (\<lambda>line. list_ex (\<lambda>m. group m 1 = Inr name)
                       (finditer vector_empty_check_pattern line)) file_lines"

text \<open>The pattern matches at no position inside \<open>u\<close>, placed between \<open>rev b\<close> and \<open>v\<close>.\<close>
definition fails_in :: "rx list \<Rightarrow> string \<Rightarrow> string \<Rightarrow> string \<Rightarrow> bool" where
  "fails_in r b u v \<longleftrightarrow>
     (\<forall>u1 u2. u = u1 @ u2 \<and> u2 \<noteq> [] \<longrightarrow> rx_match r (rev u1 @ b) (u2 @ v) [] = None)"


text \<open>The line of the end-to-end example of the specification.\<close>
definition example_line :: string where
  "example_line = ''std::vector<int> v; if (!v.empty()) { x = v.at(0); y = v[2]; }''"

section \<open>Properties of the matching engine and of the scans\<close>

declare finditer_from.simps [simp del]

lemma bind_err_simps [simp]:
  "bind_err (Inr v) f = f v" "bind_err (Inl e) f = Inl e"
  by (simp_all add: bind_err_def)

lemma map_err_Inr:
  "(\<And>x. x \<in> set xs \<Longrightarrow> f x = Inr (g x)) \<Longrightarrow> map_err f xs = Inr (map g xs)"
  by (induction xs) simp_all

lemma rx_match_text:
  "rx_match r b s ms = Some (b', s', ms') \<Longrightarrow> rev b' @ s' = rev b @ s"
  by (induction r b s ms rule: rx_match.induct) (auto split: if_splits option.splits)

lemma rx_match_marks:
  "rx_match r b s ms = Some (b', s', ms') \<Longrightarrow> length ms' = length ms + marks r"
  by (induction r b s ms rule: rx_match.induct) (auto split: if_splits option.splits)

lemma rx_match_shorter:
  "rx_match r b s ms = Some (b', s', ms') \<Longrightarrow> length s' \<le> length s"
  by (induction r b s ms rule: rx_match.induct) (auto split: if_splits option.splits)

lemma length_spans: "length (spans ms) = length ms div 2"
  by (induction ms rule: spans.induct) simp_all

lemma idstart_word: "is_idstart c \<Longrightarrow> is_word c"
  by (simp add: is_word_def)

lemma digit_word: "is_digit c \<Longrightarrow> is_word c"
  by (simp add: is_word_def)

lemma word_not_space: "is_word c \<Longrightarrow> \<not> is_space c"
  by (auto simp: is_word_def is_space_def is_idstart_def is_digit_def)

lemma space_not_word: "is_space c \<Longrightarrow> \<not> is_word c"
  using word_not_space by blast

lemma digit_not_space: "is_digit c \<Longrightarrow> \<not> is_space c"
  by (auto simp: is_space_def is_digit_def)

lemma punct_classes [simp]:
  "\<not> is_word CHR ''[''" "\<not> is_word CHR '']''" "\<not> is_word CHR ''(''" "\<not> is_word CHR '')''"
  "\<not> is_word CHR ''.''"
  "\<not> is_space CHR ''[''" "\<not> is_space CHR '']''" "\<not> is_space CHR ''(''" "\<not> is_space CHR '')''"
  "\<not> is_space CHR ''.''"
  "\<not> is_digit CHR ''[''" "\<not> is_digit CHR '']''" "\<not> is_digit CHR ''(''" "\<not> is_digit CHR '')''"
  "\<not> is_digit CHR ''.''"
  by (simp_all add: is_word_def is_space_def is_idstart_def is_digit_def code_def)

lemma word_not_special: "is_word c \<Longrightarrow> c \<notin> set special_chars"
  by (auto simp: special_chars_def is_word_def is_idstart_def is_digit_def code_def)

lemma blocks_One: "(\<And>x. cmatch c x \<Longrightarrow> \<not> cmatch d x) \<Longrightarrow> blocks c (One d # r)"
  by (simp add: blocks_def)

lemma blocks_Plus: "(\<And>x. cmatch c x \<Longrightarrow> \<not> cmatch d x) \<Longrightarrow> blocks c (Plus d # r)"
  by (simp add: blocks_def)

lemma blocks_Star: "(\<And>x. cmatch c x \<Longrightarrow> \<not> cmatch d x) \<Longrightarrow> blocks c r \<Longrightarrow> blocks c (Star d # r)"
  by (simp add: blocks_def)

lemma blocks_Open: "blocks c r \<Longrightarrow> blocks c (Open # r)"
  by (simp add: blocks_def)

lemma blocks_Close: "blocks c r \<Longrightarrow> blocks c (Close # r)"
  by (simp add: blocks_def)

lemma star_det:
  "blocks c r \<Longrightarrow>
   rx_match (Star c # r) b s ms =
   rx_match r (rev (takeWhile (cmatch c) s) @ b) (dropWhile (cmatch c) s) ms"
proof (induction s arbitrary: b)
  case Nil
  then show ?case by simp
next
  case (Cons x xs)
  show ?case
  proof (cases "cmatch c x")
    case True
    with Cons.prems have "rx_match r b (x # xs) ms = None"
      by (simp add: blocks_def)
    with True Cons.IH [OF Cons.prems, of "x # b"] show ?thesis
      by (simp split: option.splits)
  next
    case False
    then show ?thesis by simp
  qed
qed

lemma plus_det:
  "blocks c r \<Longrightarrow>
   rx_match (Plus c # r) b s ms =
   (if takeWhile (cmatch c) s = [] then None
    else rx_match r (rev (takeWhile (cmatch c) s) @ b) (dropWhile (cmatch c) s) ms)"
  by (cases s) (simp_all add: star_det)

lemma lit_det:
  "rx_match (lit v @ r) b s ms =
   (if take (length v) s = v then rx_match r (rev v @ b) (drop (length v) s) ms else None)"
proof (induction v arbitrary: b s)
  case Nil
  then show ?case by (simp add: lit_def)
next
  case (Cons a v)
  show ?case
  proof (cases s)
    case Nil
    then show ?thesis by (simp add: lit_def)
  next
    case (Cons x xs)
    with Cons.IH [of "x # b" xs] show ?thesis
      by (auto simp: lit_def)
  qed
qed

lemma rx_match_marks_append:
  "rx_match r b s ms = Some (b', s', ms') \<Longrightarrow> \<exists>new. ms' = ms @ new"
  by (induction r b s ms rule: rx_match.induct) (auto split: if_splits option.splits)

lemma cmatch_eta [simp]:
  "cmatch Word = is_word" "cmatch Space = is_space" "cmatch Digit = is_digit"
  "cmatch IdStart = is_idstart"
  by (simp_all add: fun_eq_iff)

lemma rx_match_consumed:
  "rx_match r b s ms = Some (b', s', ms') \<Longrightarrow> \<exists>cs. s = cs @ s' \<and> b' = rev cs @ b"
  by (induction r b s ms rule: rx_match.induct) (auto split: if_splits option.splits)

lemma ident_prefix_det:
  assumes "blocks Word r"
  shows "rx_match (Bnd # Open # One IdStart # Star Word # Close # r) b s ms =
    (case s of [] \<Rightarrow> None
     | i # t \<Rightarrow>
        if word_boundary b (i # t) \<and> is_idstart i
        then rx_match r (rev (takeWhile is_word t) @ i # b) (dropWhile is_word t)
               (ms @ [length b, Suc (length b + length (takeWhile is_word t))])
        else None)"
proof -
  have "blocks Word (Close # r)" using assms by (rule blocks_Close)
  then show ?thesis
    by (cases s) (simp_all add: star_det add.commute)
qed

lemma take_length_takeWhile: "take (length (takeWhile P xs)) xs = takeWhile P xs"
  by (induction xs) simp_all

lemma ident_prefix_group1:
  assumes bl: "blocks Word r"
    and m: "rx_match (Bnd # Open # One IdStart # Star Word # Close # r) b s [] = Some (b', s', ms)"
  shows "\<exists>n g. is_identifier n \<and> m_groups (mk_match b b' s' ms) = n # g"
proof -
  from m [unfolded ident_prefix_det [OF bl]] obtain i t where s: "s = i # t" and i: "is_idstart i"
    and r: "rx_match r (rev (takeWhile is_word t) @ i # b) (dropWhile is_word t)
               [length b, Suc (length b + length (takeWhile is_word t))] = Some (b', s', ms)"
    by (auto split: list.splits if_splits)
  from rx_match_marks_append [OF r] obtain new
    where ms: "ms = [length b, Suc (length b + length (takeWhile is_word t))] @ new" by blast
  from rx_match_text [OF m] have txt0: "rev b' @ s' = rev b @ s" .
  have id: "is_identifier (i # takeWhile is_word t)"
    using i by (auto simp: is_identifier_def list_all_iff dest: set_takeWhileD)
  have "m_groups (mk_match b b' s' ms) =
        (i # takeWhile is_word t) # map (\<lambda>(i, j). take (j - i) (drop i (rev b @ s))) (spans new)"
    by (simp add: mk_match_def ms txt0 s take_length_takeWhile)
  with id show ?thesis by blast
qed

lemma finditer_from_None:
  "rx_match r b s [] = None \<Longrightarrow>
   finditer_from r b s = (case s of [] \<Rightarrow> [] | x # xs \<Rightarrow> finditer_from r (x # b) xs)"
  by (simp add: finditer_from.simps [of r b s])

lemma finditer_from_Some:
  "rx_match r b s [] = Some (b', s', ms) \<Longrightarrow>
   finditer_from r b s =
   mk_match b b' s' ms #
   (if length s' < length s then finditer_from r b' s'
    else (case s of [] \<Rightarrow> [] | x # xs \<Rightarrow> finditer_from r (x # b) xs))"
  by (simp add: finditer_from.simps [of r b s])

lemma finditer_from_sound:
  "m \<in> set (finditer_from r b s) \<Longrightarrow>
   \<exists>pre post b' s' ms. s = pre @ post \<and> rx_match r (rev pre @ b) post [] = Some (b', s', ms)
      \<and> m = mk_match (rev pre @ b) b' s' ms"
proof (induction "length s" arbitrary: b s rule: less_induct)
  case less
  have adv: ?case if s: "s = x # xs" and m: "m \<in> set (finditer_from r (x # b) xs)" for x xs
  proof -
    from less.hyps [of xs "x # b"] s m
    obtain pre post b' s' ms where "xs = pre @ post"
      "rx_match r (rev pre @ x # b) post [] = Some (b', s', ms)"
      "m = mk_match (rev pre @ x # b) b' s' ms" by auto
    then have "s = (x # pre) @ post \<and>
        rx_match r (rev (x # pre) @ b) post [] = Some (b', s', ms) \<and>
        m = mk_match (rev (x # pre) @ b) b' s' ms" using s by simp
    then show ?thesis by blast
  qed
  have here: ?case if "rx_match r b s [] = Some (b', s', ms)" "m = mk_match b b' s' ms"
    for b' s' ms
  proof -
    have "s = [] @ s \<and> rx_match r (rev [] @ b) s [] = Some (b', s', ms) \<and>
        m = mk_match (rev [] @ b) b' s' ms" using that by simp
    then show ?thesis by blast
  qed
  show ?case
  proof (cases "rx_match r b s []")
    case None
    with less.prems adv show ?thesis
      by (cases s) (auto simp: finditer_from_None)
  next
    case (Some res)
    obtain b' s' ms where res: "res = (b', s', ms)" by (cases res)
    note found = Some [unfolded res]
    from rx_match_consumed [OF found] obtain cs where cs: "s = cs @ s'" "b' = rev cs @ b"
      by blast
    from less.prems [unfolded finditer_from_Some [OF found]]
    consider "m = mk_match b b' s' ms"
      | "length s' < length s" "m \<in> set (finditer_from r b' s')"
      | x xs where "s = x # xs" "m \<in> set (finditer_from r (x # b) xs)"
      by (auto split: if_splits list.splits)
    then show ?thesis
    proof cases
      case 1
      with here found show ?thesis by blast
    next
      case 2
      from less.hyps [OF 2]
      obtain pre post b'' s'' ms'' where "s' = pre @ post"
        "rx_match r (rev pre @ b') post [] = Some (b'', s'', ms'')"
        "m = mk_match (rev pre @ b') b'' s'' ms''" by blast
      then have "s = (cs @ pre) @ post \<and>
        rx_match r (rev (cs @ pre) @ b) post [] = Some (b'', s'', ms'') \<and>
        m = mk_match (rev (cs @ pre) @ b) b'' s'' ms''" using cs by simp
      then show ?thesis by blast
    next
      case 3
      with adv show ?thesis by blast
    qed
  qed
qed

lemma finditer_from_groups:
  assumes "m \<in> set (finditer_from r b s)"
  shows "length (m_groups m) = marks r div 2"
proof -
  from finditer_from_sound [OF assms] obtain pre post b' s' ms
    where "rx_match r (rev pre @ b) post [] = Some (b', s', ms)"
      and "m = mk_match (rev pre @ b) b' s' ms" by blast
  then show ?thesis
    using rx_match_marks [of r "rev pre @ b" post "[]" b' s' ms]
    by (simp add: mk_match_def length_spans)
qed

lemma access_pattern_split:
  "vector_access_pattern = Bnd # Open # One IdStart # Star Word # Close #
     [ws, One (Lit CHR ''[''), ws, Open, Plus Digit, Close, ws, One (Lit CHR '']'')]"
  by (simp add: vector_access_pattern_def)

lemma at_pattern_split:
  "vector_at_pattern = Bnd # Open # One IdStart # Star Word # Close #
     (One (Lit CHR ''.'') # One (Lit CHR ''a'') # One (Lit CHR ''t'') #
      [ws, One (Lit CHR ''(''), ws, Open, Plus Digit, Close, ws, One (Lit CHR '')'')])"
  by (simp add: vector_at_pattern_def lit_def)

lemma empty_pattern_split:
  "vector_empty_check_pattern = Bnd # Open # One IdStart # Star Word # Close #
     (lit ''.empty'' @ [ws, One (Lit CHR ''(''), ws, One (Lit CHR '')'')])"
  by (simp add: vector_empty_check_pattern_def)

lemma blocks_access_tail:
  "blocks Word [ws, One (Lit CHR ''[''), ws, Open, Plus Digit, Close, ws, One (Lit CHR '']'')]"
  unfolding ws_def by (intro blocks_Star blocks_One) (auto dest: word_not_space)

lemma blocks_dot_tail: "blocks Word (One (Lit CHR ''.'') # r)"
  by (rule blocks_One) auto

lemma marks_access: "marks vector_access_pattern = 4"
  by (simp add: vector_access_pattern_def ws_def)

lemma marks_at: "marks vector_at_pattern = 4"
  by (simp add: vector_at_pattern_def ws_def lit_def)

lemma two_groups:
  assumes bl: "blocks Word r" and mk: "marks r = 2"
    and m: "m \<in> set (finditer (Bnd # Open # One IdStart # Star Word # Close # r) line)"
  shows "\<exists>n i. is_identifier n \<and> m_groups m = [n, i]"
proof -
  let ?p = "Bnd # Open # One IdStart # Star Word # Close # r"
  from m have m': "m \<in> set (finditer_from ?p [] line)" by (simp add: finditer_def)
  from finditer_from_sound [OF m'] obtain pre post b' s' ms
    where "rx_match ?p (rev pre @ []) post [] = Some (b', s', ms)"
      and "m = mk_match (rev pre @ []) b' s' ms" by blast
  with ident_prefix_group1 [OF bl] obtain n g
    where n: "is_identifier n" "m_groups m = n # g" by blast
  from finditer_from_groups [OF m'] mk have "length (m_groups m) = 2" by simp
  with n obtain i where "g = [i]" by (cases g) auto
  with n show ?thesis by blast
qed

lemma access_groups:
  "m \<in> set (finditer vector_access_pattern line) \<Longrightarrow> \<exists>n i. is_identifier n \<and> m_groups m = [n, i]"
  unfolding access_pattern_split
  by (rule two_groups [OF blocks_access_tail]) (simp_all add: ws_def)

lemma at_groups:
  "m \<in> set (finditer vector_at_pattern line) \<Longrightarrow> \<exists>n i. is_identifier n \<and> m_groups m = [n, i]"
  unfolding at_pattern_split
  by (rule two_groups [OF blocks_dot_tail]) (simp_all add: ws_def)

lemma group_two:
  "m_groups m = [n, i] \<Longrightarrow> group m 1 = Inr n \<and> group m (Suc 0) = Inr n \<and> group m 2 = Inr i"
  by (simp add: group_def)

lemma line_issues_total: "line_issues p = Inr (line_issues_of p)"
proof -
  obtain ln line where p: "p = (ln, line)" by (cases p)
  have a: "map_err (access_issue ln) (finditer vector_access_pattern line) =
        Inr (map (\<lambda>m. access_msg (m_groups m ! 0) (m_groups m ! 1) ln)
              (finditer vector_access_pattern line))"
    by (rule map_err_Inr) (auto simp: access_issue_def dest!: access_groups simp: group_two)
  have b: "map_err (at_issue ln) (finditer vector_at_pattern line) =
        Inr (map (\<lambda>m. at_msg (m_groups m ! 0) (m_groups m ! 1) ln)
              (finditer vector_at_pattern line))"
    by (rule map_err_Inr) (auto simp: at_issue_def dest!: at_groups simp: group_two)
  show ?thesis by (simp add: p line_issues_def line_issues_of_def a b)
qed

lemma check_vector_access_total:
  "check_vector_access file_lines =
   Inr (concat (map line_issues_of (List.enumerate 1 file_lines)))"
  by (simp add: check_vector_access_def map_err_Inr [of _ line_issues line_issues_of]
        line_issues_total)

lemma line_records_total: "line_records p = Inr (line_records_of p)"
proof -
  obtain ln line where p: "p = (ln, line)" by (cases p)
  have a: "map_err (access_record ln) (finditer vector_access_pattern line) =
        Inr (map (\<lambda>m. (m_groups m ! 0, ln)) (finditer vector_access_pattern line))"
    by (rule map_err_Inr) (auto simp: access_record_def dest!: access_groups simp: group_two)
  have b: "map_err (access_record ln) (finditer vector_at_pattern line) =
        Inr (map (\<lambda>m. (m_groups m ! 0, ln)) (finditer vector_at_pattern line))"
    by (rule map_err_Inr) (auto simp: access_record_def dest!: at_groups simp: group_two)
  show ?thesis by (simp add: p line_records_def line_records_of_def a b)
qed

lemma collect_accessed_total: "collect_accessed file_lines = Inr (vectors_accessed file_lines)"
  by (simp add: collect_accessed_def vectors_accessed_def
        map_err_Inr [of _ line_records line_records_of] line_records_total)

lemma set_fold_set_add: "set (fold set_add xs acc) = set xs \<union> set acc"
  by (induction xs arbitrary: acc) (auto simp: set_add_def)

lemma distinct_fold_set_add: "distinct acc \<Longrightarrow> distinct (fold set_add xs acc)"
  by (induction xs arbitrary: acc) (auto simp: set_add_def)

lemma set_vectors_accessed:
  "set (vectors_accessed file_lines) =
   (\<Union>p \<in> set (List.enumerate 1 file_lines). set (line_records_of p))"
  by (simp add: vectors_accessed_def set_fold_set_add)

lemma distinct_vectors_accessed: "distinct (vectors_accessed file_lines)"
  by (simp add: vectors_accessed_def distinct_fold_set_add)

lemma line_records_identifier:
  "(n, l) \<in> set (line_records_of p) \<Longrightarrow> is_identifier n"
  by (cases p) (auto simp: line_records_of_def dest!: access_groups at_groups)

lemma accessed_identifier:
  "(n, l) \<in> set (vectors_accessed file_lines) \<Longrightarrow> is_identifier n"
  by (auto simp: set_vectors_accessed dest: line_records_identifier)

lemma identifier_not_special:
  "is_identifier n \<Longrightarrow> c \<in> set n \<Longrightarrow> c \<notin> set special_chars"
  by (cases n) (auto simp: is_identifier_def list_all_iff dest: idstart_word word_not_special)

lemma empty_check_regex_total:
  "is_identifier n \<Longrightarrow> empty_check_regex n = Inr (empty_check_rx n)"
  using identifier_not_special [of n]
  by (auto simp: empty_check_regex_def empty_check_rx_def)

lemma any_empty_check_total:
  "is_identifier n \<Longrightarrow> any_empty_check n file_lines = Inr (empty_check_found file_lines n)"
  by (induction file_lines) (simp_all add: empty_check_found_def empty_check_regex_total)

lemma missing_issue_total:
  "is_identifier (fst p) \<Longrightarrow> missing_issue file_lines p = Inr (missing_of file_lines p)"
  by (cases p) (simp add: missing_issue_def missing_of_def any_empty_check_total)

lemma set_iteration_set: "set_iteration iter \<Longrightarrow> set (iter xs) = set xs"
  using mset_eq_setD [of "iter xs" xs] by (simp add: set_iteration_def)

lemma set_iteration_distinct: "set_iteration iter \<Longrightarrow> distinct (iter xs) = distinct xs"
  using mset_eq_imp_distinct_iff [of "iter xs" xs] by (simp add: set_iteration_def)

lemma check_empty_before_access_total:
  assumes "set_iteration iter"
  shows "check_empty_before_access iter file_lines =
    Inr (concat (map (missing_of file_lines) (iter (vectors_accessed file_lines))))"
proof -
  have "map_err (missing_issue file_lines) (iter (vectors_accessed file_lines)) =
        Inr (map (missing_of file_lines) (iter (vectors_accessed file_lines)))"
  proof (rule map_err_Inr)
    fix p assume "p \<in> set (iter (vectors_accessed file_lines))"
    then have "p \<in> set (vectors_accessed file_lines)"
      using set_iteration_set [OF assms] by simp
    then have "is_identifier (fst p)"
      using accessed_identifier [of "fst p" "snd p" file_lines] by simp
    then show "missing_issue file_lines p = Inr (missing_of file_lines p)"
      by (rule missing_issue_total)
  qed
  then show ?thesis
    by (simp add: check_empty_before_access_def collect_accessed_total)
qed

lemma set_iteration_id: "set_iteration id"
  by (simp add: set_iteration_def)

lemma set_iteration_rev: "set_iteration rev"
  by (simp add: set_iteration_def)

lemma rx_match_no_marks:
  "marks r = 0 \<Longrightarrow> (rx_match r b s ms = None) = (rx_match r b s ms' = None)"
  by (induction r b s ms rule: rx_match.induct) (auto split: option.splits)

lemma rx_match_no_marks_imp:
  "marks r = 0 \<Longrightarrow> rx_match r b s ms \<noteq> None \<Longrightarrow> rx_match r b s ms' \<noteq> None"
  using rx_match_no_marks [of r b s ms ms'] by simp

lemma ident_prefix_name:
  assumes bl: "blocks Word r"
    and m: "rx_match (Bnd # Open # One IdStart # Star Word # Close # r) b (i # t) [] = Some (b', s', ms)"
  shows "\<exists>g. m_groups (mk_match b b' s' ms) = (i # takeWhile is_word t) # g"
proof -
  from m [unfolded ident_prefix_det [OF bl]]
  have r: "rx_match r (rev (takeWhile is_word t) @ i # b) (dropWhile is_word t)
               [length b, Suc (length b + length (takeWhile is_word t))] = Some (b', s', ms)"
    by (auto split: if_splits)
  from rx_match_marks_append [OF r] obtain new
    where ms: "ms = [length b, Suc (length b + length (takeWhile is_word t))] @ new" by blast
  from rx_match_text [OF m] have txt0: "rev b' @ s' = rev b @ i # t" .
  show ?thesis
    by (simp add: mk_match_def ms txt0 take_length_takeWhile)
qed

lemma empty_tail_marks: "marks (lit ''.empty'' @ [ws, One (Lit CHR ''(''), ws, One (Lit CHR '')'')]) = 0"
  by (simp add: lit_def ws_def)

lemma blocks_empty_tail:
  "blocks Word (lit ''.empty'' @ [ws, One (Lit CHR ''(''), ws, One (Lit CHR '')'')])"
  by (simp add: lit_def blocks_dot_tail)

lemma empty_tail_dot:
  "rx_match (lit ''.empty'' @ r) b s ms \<noteq> None \<Longrightarrow> \<exists>t. s = CHR ''.'' # t"
  by (cases s) (auto simp: lit_def split: if_splits)

lemma takeWhile_word_dot:
  "list_all is_word w \<Longrightarrow> takeWhile is_word (w @ CHR ''.'' # t) = w"
  by (induction w) simp_all

lemma dropWhile_word_dot:
  "list_all is_word w \<Longrightarrow> dropWhile is_word (w @ CHR ''.'' # t) = CHR ''.'' # t"
  by (induction w) simp_all

lemma empty_check_at_position:
  assumes n: "is_identifier n"
  shows "(rx_match (empty_check_rx n) b s [] \<noteq> None) \<longleftrightarrow>
    (\<exists>b' s' ms. rx_match vector_empty_check_pattern b s [] = Some (b', s', ms)
       \<and> group (mk_match b b' s' ms) 1 = Inr n)"
proof -
  let ?T = "lit ''.empty'' @ [ws, One (Lit CHR ''(''), ws, One (Lit CHR '')'')]"
  from n obtain i w where nw: "n = i # w" "is_idstart i" "list_all is_word w"
    by (cases n) (auto simp: is_identifier_def)
  have dyn: "rx_match (empty_check_rx n) b s [] =
      (if word_boundary b s \<and> take (length n) s = n
       then rx_match ?T (rev n @ b) (drop (length n) s) [] else None)"
    using lit_det [of n ?T b s "[]"] by (simp add: empty_check_rx_def)
  show ?thesis
  proof
    assume a: "rx_match (empty_check_rx n) b s [] \<noteq> None"
    with dyn have wb: "word_boundary b s" and tk: "take (length n) s = n"
      and tl: "rx_match ?T (rev n @ b) (drop (length n) s) [] \<noteq> None"
      by (auto split: if_splits)
    from tk have s: "s = n @ drop (length n) s" by (metis append_take_drop_id)
    from empty_tail_dot [OF tl] obtain t where dr: "drop (length n) s = CHR ''.'' # t" by blast
    have s': "s = i # (w @ CHR ''.'' # t)" using s dr nw by simp
    have "rx_match ?T (rev w @ i # b) (CHR ''.'' # t) [] \<noteq> None"
      using tl dr nw by simp
    then have tl': "rx_match ?T (rev w @ i # b) (CHR ''.'' # t)
        [length b, Suc (length b + length w)] \<noteq> None"
      by (rule rx_match_no_marks_imp [OF empty_tail_marks])
    then obtain b' s'' ms where res: "rx_match ?T (rev w @ i # b) (CHR ''.'' # t)
        [length b, Suc (length b + length w)] = Some (b', s'', ms)" by auto
    have st: "rx_match vector_empty_check_pattern b s [] = Some (b', s'', ms)"
      unfolding empty_pattern_split ident_prefix_det [OF blocks_empty_tail]
      using wb nw res by (simp add: s' takeWhile_word_dot dropWhile_word_dot)
    from ident_prefix_name [OF blocks_empty_tail st [unfolded empty_pattern_split s']]
    obtain g where "m_groups (mk_match b b' s'' ms) = n # g"
      using nw by (auto simp: takeWhile_word_dot)
    then have "group (mk_match b b' s'' ms) 1 = Inr n" by (simp add: group_def)
    with st show "\<exists>b' s' ms. rx_match vector_empty_check_pattern b s [] = Some (b', s', ms)
       \<and> group (mk_match b b' s' ms) 1 = Inr n" by blast
  next
    assume "\<exists>b' s' ms. rx_match vector_empty_check_pattern b s [] = Some (b', s', ms)
       \<and> group (mk_match b b' s' ms) 1 = Inr n"
    then obtain b' s' ms where st: "rx_match vector_empty_check_pattern b s [] = Some (b', s', ms)"
      and g: "group (mk_match b b' s' ms) 1 = Inr n" by blast
    from st [unfolded empty_pattern_split ident_prefix_det [OF blocks_empty_tail]]
    obtain j t where s: "s = j # t" and wb: "word_boundary b s" and
      res: "rx_match ?T (rev (takeWhile is_word t) @ j # b) (dropWhile is_word t)
         [length b, Suc (length b + length (takeWhile is_word t))] = Some (b', s', ms)"
      by (auto split: list.splits if_splits)
    from ident_prefix_name [OF blocks_empty_tail st [unfolded empty_pattern_split s]]
    obtain g' where "m_groups (mk_match b b' s' ms) = (j # takeWhile is_word t) # g'" by blast
    with g have nj: "n = j # takeWhile is_word t" by (simp add: group_def)
    have tk: "take (length n) s = n" by (simp add: nj s take_length_takeWhile)
    have dr: "drop (length n) s = dropWhile is_word t"
      by (simp add: nj s dropWhile_eq_drop)
    have "rx_match ?T (rev (takeWhile is_word t) @ j # b) (dropWhile is_word t) [] \<noteq> None"
      by (rule rx_match_no_marks_imp [OF empty_tail_marks,
            of _ _ "[length b, Suc (length b + length (takeWhile is_word t))]"])
         (simp add: res)
    then have fin: "rx_match ?T (rev n @ b) (drop (length n) s) [] \<noteq> None"
      unfolding dr by (simp add: nj)
    show "rx_match (empty_check_rx n) b s [] \<noteq> None"
      by (simp only: dyn wb tk fin simp_thms if_True)
  qed
qed

lemma search_matches_from:
  assumes "is_identifier n"
  shows "search_from (empty_check_rx n) b s \<longleftrightarrow>
    list_ex (\<lambda>m. group m 1 = Inr n) (matches_from vector_empty_check_pattern b s)"
proof (induction s arbitrary: b)
  case Nil
  show ?case using empty_check_at_position [OF assms, of b "[]"]
    by (auto split: option.splits)
next
  case (Cons x xs)
  show ?case using empty_check_at_position [OF assms, of b "x # xs"] Cons [of "x # b"]
    by (auto split: option.splits)
qed

lemma re_search_occurrences:
  "is_identifier n \<Longrightarrow>
   re_search (empty_check_rx n) line \<longleftrightarrow>
   list_ex (\<lambda>m. group m 1 = Inr n) (occurrences vector_empty_check_pattern line)"
  by (simp add: re_search_def occurrences_def search_matches_from)

lemma concat_missing_of:
  "concat (map (missing_of file_lines) xs) =
   map (\<lambda>(n, l). missing_msg n l) (filter (\<lambda>(n, l). \<not> empty_check_found file_lines n) xs)"
  by (induction xs) (auto simp: missing_of_def)

lemma group1_nth:
  "m_groups m = [n, i] \<Longrightarrow> (group m 1 = Inr name) = (n = name)"
  by (simp add: group_def)

lemma line_records_iff:
  "(n, l) \<in> set (line_records_of (ln, line)) \<longleftrightarrow>
   l = ln \<and> list_ex (\<lambda>m. group m 1 = Inr n)
      (finditer vector_access_pattern line @ finditer vector_at_pattern line)"
proof -
  have a: "m \<in> set (finditer vector_access_pattern line) \<Longrightarrow>
      (group m 1 = Inr n) = (m_groups m ! 0 = n)" for m
    using access_groups [of m line] by (auto simp: group_def)
  have b: "m \<in> set (finditer vector_at_pattern line) \<Longrightarrow>
      (group m 1 = Inr n) = (m_groups m ! 0 = n)" for m
    using at_groups [of m line] by (auto simp: group_def)
  show ?thesis
    using a b by (auto simp: line_records_of_def list_ex_iff)
qed

lemma in_vectors_accessed_iff:
  "(n, l) \<in> set (vectors_accessed file_lines) \<longleftrightarrow> accessed_on file_lines n l"
proof -
  have "(n, l) \<in> set (vectors_accessed file_lines) \<longleftrightarrow>
      (\<exists>p \<in> set (List.enumerate 1 file_lines). (n, l) \<in> set (line_records_of p))"
    by (simp add: set_vectors_accessed)
  also have "\<dots> \<longleftrightarrow> (\<exists>ln line. (ln, line) \<in> set (List.enumerate 1 file_lines)
        \<and> (n, l) \<in> set (line_records_of (ln, line)))"
    by auto
  also have "\<dots> \<longleftrightarrow> accessed_on file_lines n l"
    unfolding line_records_iff accessed_on_def in_set_enumerate_eq
    by (auto simp: less_Suc_eq_le)
  finally show ?thesis .
qed

lemma line_records_has_issue:
  assumes "(n, l) \<in> set (line_records_of p)"
  shows "\<exists>i. access_msg n i l \<in> set (line_issues_of p) \<or> at_msg n i l \<in> set (line_issues_of p)"
proof -
  obtain ln line where p: "p = (ln, line)" by (cases p)
  from assms [unfolded p line_records_of_def]
  consider m where "m \<in> set (finditer vector_access_pattern line)" "n = m_groups m ! 0" "l = ln"
    | m where "m \<in> set (finditer vector_at_pattern line)" "n = m_groups m ! 0" "l = ln"
    by auto
  then show ?thesis
  proof cases
    case 1
    then have "access_msg n (m_groups m ! 1) l \<in> set (line_issues_of p)"
      by (auto simp: p line_issues_of_def)
    then show ?thesis by blast
  next
    case 2
    then have "at_msg n (m_groups m ! 1) l \<in> set (line_issues_of p)"
      by (auto simp: p line_issues_of_def)
    then show ?thesis by blast
  qed
qed

lemma accessed_has_issue:
  assumes "(n, l) \<in> set (vectors_accessed file_lines)"
  shows "\<exists>i. access_msg n i l \<in> set (concat (map line_issues_of (List.enumerate 1 file_lines)))
     \<or> at_msg n i l \<in> set (concat (map line_issues_of (List.enumerate 1 file_lines)))"
proof -
  from assms obtain p where p: "p \<in> set (List.enumerate 1 file_lines)"
    "(n, l) \<in> set (line_records_of p)"
    by (auto simp: set_vectors_accessed)
  from line_records_has_issue [OF p(2)] p(1) show ?thesis by auto
qed

lemma digit_char_code: "d < 10 \<Longrightarrow> of_char (digit_char d) = (48 + d :: nat)"
  by (simp add: digit_char_def)

lemma nat_of_digits_snoc:
  "nat_of_digits (ds @ [c]) = 10 * nat_of_digits ds + (of_char c - 48)"
  by (simp add: nat_of_digits_def)

lemma nat_of_digits_str_nat: "nat_of_digits (str_nat n) = n"
proof (induction n rule: str_nat.induct)
  case (1 n)
  show ?case
  proof (cases "n < 10")
    case True
    then show ?thesis
      by (simp add: nat_of_digits_def digit_char_code)
  next
    case False
    with 1 have "nat_of_digits (str_nat (n div 10)) = n div 10" by simp
    with False show ?thesis
      by (subst str_nat.simps) (simp add: nat_of_digits_snoc digit_char_code)
  qed
qed

lemma str_nat_inj: "str_nat a = str_nat b \<Longrightarrow> a = b"
  by (metis nat_of_digits_str_nat)

lemma split_at_first:
  "c \<notin> set xs \<Longrightarrow> c \<notin> set ys \<Longrightarrow> xs @ c # r = ys @ c # r' \<Longrightarrow> xs = ys \<and> r = r'"
proof (induction xs arbitrary: ys)
  case Nil
  then show ?case by (cases ys) auto
next
  case (Cons x xs)
  then show ?case by (cases ys) auto
qed

lemma word_not_apos: "is_word c \<Longrightarrow> c \<noteq> CHR 0x27"
  by (auto simp: is_word_def is_idstart_def is_digit_def code_def)

lemma identifier_no_apos: "is_identifier n \<Longrightarrow> CHR 0x27 \<notin> set n"
  by (cases n) (auto simp: is_identifier_def list_all_iff dest: idstart_word word_not_apos)

lemma missing_msg_inj:
  assumes "is_identifier n" "is_identifier n'" "missing_msg n l = missing_msg n' l'"
  shows "n = n' \<and> l = l'"
proof -
  from assms(3) have "n @ CHR 0x27 # ('' at line '' @ str_nat l)
      = n' @ CHR 0x27 # ('' at line '' @ str_nat l')"
    by (simp add: missing_msg_def apos_def del: str_nat.simps)
  from split_at_first [OF identifier_no_apos [OF assms(1)] identifier_no_apos [OF assms(2)] this]
  have "n = n'" and "str_nat l = str_nat l'"
    by (simp_all del: str_nat.simps)
  then show ?thesis by (simp add: str_nat_inj del: str_nat.simps)
qed

lemma run_lit:
  "list_all P xs \<Longrightarrow> \<not> P c \<Longrightarrow>
   takeWhile P (xs @ c # r) = xs \<and> dropWhile P (xs @ c # r) = c # r"
  by (induction xs) simp_all

lemma run_mid:
  "list_all P xs \<Longrightarrow> list_all Q ys \<Longrightarrow> (\<And>x. Q x \<Longrightarrow> \<not> P x) \<Longrightarrow> \<not> P c \<Longrightarrow>
   takeWhile P (xs @ ys @ c # r) = xs \<and> dropWhile P (xs @ ys @ c # r) = ys @ c # r"
proof (induction xs)
  case Nil
  then show ?case by (cases ys) auto
next
  case (Cons x xs)
  then show ?case by simp
qed

lemma run_nonempty:
  "list_all P xs \<Longrightarrow> list_all Q ys \<Longrightarrow> ys \<noteq> [] \<Longrightarrow> (\<And>x. Q x \<Longrightarrow> \<not> P x) \<Longrightarrow>
   takeWhile P (xs @ ys @ r) = xs \<and> dropWhile P (xs @ ys @ r) = ys @ r"
proof (induction xs)
  case Nil
  then show ?case by (cases ys) auto
next
  case (Cons x xs)
  then show ?case by simp
qed

lemma blocks_space_lit [simp]:
  "\<not> is_space c \<Longrightarrow> blocks Space (One (Lit c) # r)"
  by (rule blocks_One) auto

lemma blocks_space_digits [simp]: "blocks Space (Open # Plus Digit # r)"
  by (intro blocks_Open blocks_Plus) (auto dest: digit_not_space)

lemma blocks_digit_close [simp]:
  "\<not> is_digit c \<Longrightarrow> blocks Digit (Close # Star Space # One (Lit c) # r)"
  by (intro blocks_Close blocks_Star blocks_One) (auto dest: digit_not_space)

lemma index_tail_shape:
  assumes sp: "list_all is_space sp2" "list_all is_space sp3"
    and d: "list_all is_digit d" "d \<noteq> []"
    and c: "\<not> is_digit c" "\<not> is_space c"
  shows "rx_match [Star Space, Open, Plus Digit, Close, Star Space, One (Lit c)] b
           (sp2 @ d @ sp3 @ c # rest) ms =
         Some (c # rev sp3 @ rev d @ rev sp2 @ b, rest,
               ms @ [length b + length sp2, length b + length sp2 + length d])"
proof -
  have 1: "takeWhile is_space (sp2 @ d @ sp3 @ c # rest) = sp2"
    "dropWhile is_space (sp2 @ d @ sp3 @ c # rest) = d @ sp3 @ c # rest"
    using run_nonempty [OF sp(1) d, where r = "sp3 @ c # rest"]
    by (auto dest: digit_not_space)
  have 2: "takeWhile is_digit (d @ sp3 @ c # rest) = d"
    "dropWhile is_digit (d @ sp3 @ c # rest) = sp3 @ c # rest"
    using run_mid [OF d(1) sp(2), where c = c and r = rest] c(1) by (auto dest: digit_not_space)
  have 3: "takeWhile is_space (sp3 @ c # rest) = sp3"
    "dropWhile is_space (sp3 @ c # rest) = c # rest"
    using run_lit [OF sp(2) c(2), where r = rest] by auto
  show ?thesis
    using c d(2) by (simp add: star_det plus_det 1 2 3 add.commute)
qed


lemma at_tail_shape:
  assumes sp: "list_all is_space sp1" "list_all is_space sp2" "list_all is_space sp3"
    and d: "list_all is_digit d" "d \<noteq> []"
  shows "rx_match (One (Lit CHR ''.'') # One (Lit CHR ''a'') # One (Lit CHR ''t'') #
            [ws, One (Lit CHR ''(''), ws, Open, Plus Digit, Close, ws, One (Lit CHR '')'')]) b
           (''.at'' @ sp1 @ CHR ''('' # sp2 @ d @ sp3 @ CHR '')'' # rest) ms =
         Some (CHR '')'' # rev sp3 @ rev d @ rev sp2 @ CHR ''('' # rev sp1 @ ''ta.'' @ b, rest,
               ms @ [length b + 4 + length sp1 + length sp2,
                     length b + 4 + length sp1 + length sp2 + length d])"
proof -
  have 1: "takeWhile is_space (sp1 @ CHR ''('' # sp2 @ d @ sp3 @ CHR '')'' # rest) = sp1"
    "dropWhile is_space (sp1 @ CHR ''('' # sp2 @ d @ sp3 @ CHR '')'' # rest)
       = CHR ''('' # sp2 @ d @ sp3 @ CHR '')'' # rest"
    using run_lit [OF sp(1), where c = "CHR ''(''" and r = "sp2 @ d @ sp3 @ CHR '')'' # rest"] by auto
  show ?thesis
    using index_tail_shape [OF sp(2,3) d, where c = "CHR '')''"
        and b = "CHR ''('' # rev sp1 @ ''ta.'' @ b" and rest = rest and ms = ms]
    by (simp add: ws_def star_det 1)
qed



lemma boundary_start:
  "is_word i \<Longrightarrow> word_boundary b (i # t) \<longleftrightarrow> (b = [] \<or> \<not> is_word (hd b))"
  by (cases b) (simp_all add: word_boundary_def)

lemma idstart_not_digit: "is_idstart c \<Longrightarrow> \<not> is_digit c"
  by (auto simp: is_idstart_def is_digit_def)

lemma idstart_not_space: "is_idstart c \<Longrightarrow> \<not> is_space c"
  by (auto dest: idstart_word word_not_space)

lemma idstart_not_punct:
  "is_idstart c \<Longrightarrow> c \<noteq> CHR ''['' \<and> c \<noteq> CHR '']'' \<and> c \<noteq> CHR ''('' \<and> c \<noteq> CHR '')''
     \<and> c \<noteq> CHR ''.''"
  by (auto simp: is_idstart_def code_def)





lemma at_match_shape:
  assumes n: "is_identifier name"
    and sp: "list_all is_space sp1" "list_all is_space sp2" "list_all is_space sp3"
    and d: "list_all is_digit d" "d \<noteq> []"
    and b: "b = [] \<or> \<not> is_word (hd b)"
  shows "rx_match vector_at_pattern b (at_text name sp1 sp2 d sp3 @ rest) [] =
    Some (rev (at_text name sp1 sp2 d sp3) @ b, rest,
      [length b, length b + length name,
       length b + length name + 4 + length sp1 + length sp2,
       length b + length name + 4 + length sp1 + length sp2 + length d])"
proof -
  from n obtain i w where nw: "name = i # w" "is_idstart i" "list_all is_word w"
    by (cases name) (auto simp: is_identifier_def)
  let ?R = "''at'' @ sp1 @ CHR ''('' # sp2 @ d @ sp3 @ CHR '')'' # rest"
  have tw: "takeWhile is_word (w @ CHR ''.'' # ?R) = w"
    "dropWhile is_word (w @ CHR ''.'' # ?R) = CHR ''.'' # ?R"
    using run_lit [OF nw(3), where c = "CHR ''.''" and r = ?R] by auto
  have wb: "word_boundary b (i # w @ CHR ''.'' # ?R)"
    using b nw(2) by (simp add: boundary_start idstart_word)
  show ?thesis
    unfolding at_pattern_split ident_prefix_det [OF blocks_dot_tail]
    using wb nw(2) at_tail_shape [OF sp d, where b = "rev w @ i # b" and rest = rest
        and ms = "[length b, Suc (length b + length w)]"] tw
    by (simp add: at_text_def nw(1))
qed


lemma at_match_obj:
  "mk_match b (rev (at_text name sp1 sp2 d sp3) @ b) rest
      [length b, length b + length name,
       length b + length name + 4 + length sp1 + length sp2,
       length b + length name + 4 + length sp1 + length sp2 + length d] =
   \<lparr> m_start = length b, m_end = length b + length (at_text name sp1 sp2 d sp3),
     m_groups = [name, d] \<rparr>"
proof -
  have four: "4 + n = Suc (Suc (Suc (Suc n)))" for n :: nat by simp
  show ?thesis
    by (simp add: mk_match_def at_text_def four)
qed

lemma finditer_from_end:
  "finditer_from (Bnd # Open # One c # r) b [] = []"
  by (simp add: finditer_from_None)

lemma skip_nonstart:
  "list_all (\<lambda>c. \<not> is_idstart c) u \<Longrightarrow>
   finditer_from (Bnd # Open # One IdStart # r) b (u @ v) =
   finditer_from (Bnd # Open # One IdStart # r) (rev u @ b) v"
proof (induction u arbitrary: b)
  case Nil
  show ?case by simp
next
  case (Cons x u)
  then have "rx_match (Bnd # Open # One IdStart # r) b (x # u @ v) [] = None" by simp
  with Cons show ?case by (simp add: finditer_from_None)
qed

lemma skip_interior:
  "list_all is_word u \<Longrightarrow> b \<noteq> [] \<Longrightarrow> is_word (hd b) \<Longrightarrow>
   finditer_from (Bnd # r) b (u @ v) = finditer_from (Bnd # r) (rev u @ b) v"
proof (induction u arbitrary: b)
  case Nil
  show ?case by simp
next
  case (Cons x u)
  then have "\<not> word_boundary b (x # u @ v)"
    by (cases b) (simp_all add: word_boundary_def)
  then have "rx_match (Bnd # r) b (x # u @ v) [] = None" by simp
  with Cons.prems Cons.IH [of "x # b"] show ?case by (simp add: finditer_from_None)
qed

lemma takeWhile_token:
  "list_all P w \<Longrightarrow> v = [] \<or> \<not> P (hd v) \<Longrightarrow>
   takeWhile P (w @ v) = w \<and> dropWhile P (w @ v) = v"
proof (induction w)
  case Nil
  then show ?case by (cases v) auto
next
  case (Cons x w)
  then show ?case by simp
qed

lemma token_fail:
  assumes bl: "blocks Word T" and tok: "list_all is_word tok"
    and v: "v = [] \<or> \<not> is_word (hd v)"
    and fail: "\<And>B MS. rx_match T B v MS = None"
  shows "finditer_from (Bnd # Open # One IdStart # Star Word # Close # T) b (tok @ v) =
         finditer_from (Bnd # Open # One IdStart # Star Word # Close # T) (rev tok @ b) v"
proof (cases tok)
  case Nil
  then show ?thesis by simp
next
  case (Cons i w)
  with tok have w: "list_all is_word w" and i: "is_word i" by simp_all
  let ?r = "Bnd # Open # One IdStart # Star Word # Close # T"
  have "rx_match ?r b (i # w @ v) [] = None"
    unfolding ident_prefix_det [OF bl]
    using takeWhile_token [OF w v] fail by simp
  then have "finditer_from ?r b (tok @ v) = finditer_from ?r (i # b) (w @ v)"
    by (simp add: Cons finditer_from_None)
  also have "\<dots> = finditer_from ?r (rev w @ i # b) v"
    using skip_interior [OF w, of "i # b"] i by simp
  finally show ?thesis by (simp add: Cons)
qed





lemma at_needs_dot:
  assumes n: "is_identifier name" and c: "\<not> is_word c" "c \<noteq> CHR ''.''"
  shows "rx_match vector_at_pattern b (name @ c # e) [] = None"
proof -
  from n obtain i w where nw: "name = i # w" "is_idstart i" "list_all is_word w"
    by (cases name) (auto simp: is_identifier_def)
  have tw: "takeWhile is_word (w @ c # e) = w" "dropWhile is_word (w @ c # e) = c # e"
    using run_lit [OF nw(3) c(1), where r = e] by auto
  show ?thesis
    unfolding at_pattern_split ident_prefix_det [OF blocks_dot_tail]
    using c(2) by (simp add: nw(1) tw)
qed

lemma at_space_after_dot:
  assumes n: "is_identifier name" and sp: "list_all is_space sp" "sp \<noteq> []"
  shows "rx_match vector_at_pattern b (name @ CHR ''.'' # sp @ rest) [] = None"
proof -
  from n obtain i w where nw: "name = i # w" "is_idstart i" "list_all is_word w"
    by (cases name) (auto simp: is_identifier_def)
  from sp obtain s0 sp' where s0: "sp = s0 # sp'" "is_space s0" by (cases sp) auto
  then have "s0 \<noteq> CHR ''a''" by (auto simp: is_space_def code_def)
  have tw: "takeWhile is_word (w @ CHR ''.'' # sp @ rest) = w"
    "dropWhile is_word (w @ CHR ''.'' # sp @ rest) = CHR ''.'' # sp @ rest"
    using run_lit [OF nw(3), where c = "CHR ''.''" and r = "sp @ rest"] by auto
  have tail: "rx_match (One (Lit CHR ''a'') # r) B (sp @ rest) MS = None" for r B MS
    using \<open>s0 \<noteq> CHR ''a''\<close> by (simp add: s0(1))
  show ?thesis
    unfolding at_pattern_split ident_prefix_det [OF blocks_dot_tail]
    by (simp add: nw(1) tw tail)
qed

lemma two_tokens_none:
  assumes bl: "blocks Word T"
    and toks: "list_all is_word tok1" "list_all is_word tok2"
    and ps: "list_all (\<lambda>c. \<not> is_idstart c) p1" "list_all (\<lambda>c. \<not> is_idstart c) p2"
    and hd1: "p1 \<noteq> []" "\<not> is_word (hd p1)"
    and hd2: "p2 = [] \<or> \<not> is_word (hd p2)"
    and fail1: "\<And>B MS. rx_match T B (p1 @ tok2 @ p2) MS = None"
    and fail2: "\<And>B MS. rx_match T B p2 MS = None"
  shows "finditer (Bnd # Open # One IdStart # Star Word # Close # T) (tok1 @ p1 @ tok2 @ p2) = []"
proof -
  let ?r = "Bnd # Open # One IdStart # Star Word # Close # T"
  have v1: "p1 @ tok2 @ p2 = [] \<or> \<not> is_word (hd (p1 @ tok2 @ p2))"
    using hd1 by simp
  have "finditer ?r (tok1 @ p1 @ tok2 @ p2) = finditer_from ?r (rev tok1) (p1 @ tok2 @ p2)"
    using token_fail [OF bl toks(1) v1 fail1, of "[]"] by (simp add: finditer_def)
  also have "\<dots> = finditer_from ?r (rev p1 @ rev tok1) (tok2 @ p2)"
    by (rule skip_nonstart [OF ps(1)])
  also have "\<dots> = finditer_from ?r (rev tok2 @ rev p1 @ rev tok1) p2"
    by (rule token_fail [OF bl toks(2) hd2 fail2])
  also have "\<dots> = finditer_from ?r (rev p2 @ rev tok2 @ rev p1 @ rev tok1) []"
    using skip_nonstart [OF ps(2), of _ _ "[]"] by simp
  also have "\<dots> = []" by (rule finditer_from_end)
  finally show ?thesis .
qed

lemma identifier_word: "is_identifier n \<Longrightarrow> list_all is_word n"
  by (cases n) (auto simp: is_identifier_def dest: idstart_word)

lemma space_not_idstart: "is_space c \<Longrightarrow> \<not> is_idstart c"
  using idstart_not_space by blast

lemma digit_not_idstart: "is_digit c \<Longrightarrow> \<not> is_idstart c"
  using idstart_not_digit by blast

lemma punct_not_idstart [simp]:
  "\<not> is_idstart CHR ''[''" "\<not> is_idstart CHR '']''" "\<not> is_idstart CHR ''(''"
  "\<not> is_idstart CHR '')''" "\<not> is_idstart CHR ''.''"
  using idstart_not_punct by blast+

lemma word_at [simp]: "is_word CHR ''a''" "is_word CHR ''t''"
  by (simp_all add: is_word_def is_idstart_def code_def)

lemma check_vector_access_single:
  "check_vector_access [line] = Inr (line_issues_of (1, line))"
  by (simp add: check_vector_access_total)

lemma access_tail_needs_bracket:
  assumes "list_all is_space sp" "c \<noteq> CHR ''[''" "\<not> is_space c"
  shows "rx_match [ws, One (Lit CHR ''[''), ws, Open, Plus Digit, Close, ws, One (Lit CHR '']'')]
           B (sp @ c # r) MS = None"
  using run_lit [OF assms(1,3), where r = r] assms(2)
  by (simp add: ws_def star_det)


lemma no_issue_space_after_dot:
  assumes n: "is_identifier name" and sp: "list_all is_space sp" "sp \<noteq> []"
    and d: "list_all is_digit d"
  shows "check_vector_access [name @ ''.'' @ sp @ ''at('' @ d @ '')''] = Inr []"
proof -
  from sp obtain s0 sp' where s0: "sp = s0 # sp'" "is_space s0" by (cases sp) auto
  then have s0a: "s0 \<noteq> CHR ''a''" by (auto simp: is_space_def code_def)
  have p1: "list_all (\<lambda>c. \<not> is_idstart c) (''.'' @ sp)"
    using sp(1) by (auto simp: list_all_iff dest: space_not_idstart)
  have p2: "list_all (\<lambda>c. \<not> is_idstart c) (''('' @ d @ '')'')"
    using d by (auto simp: list_all_iff dest: digit_not_idstart)
  have line: "name @ ''.'' @ sp @ ''at('' @ d @ '')'' = name @ (''.'' @ sp) @ ''at'' @ (''('' @ d @ '')'')"
    by simp
  have a: "finditer vector_access_pattern (name @ ''.'' @ sp @ ''at('' @ d @ '')'') = []"
    unfolding access_pattern_split line
    by (rule two_tokens_none [OF blocks_access_tail identifier_word [OF n] _ p1 p2])
       (simp_all add: ws_def)
  have b: "finditer vector_at_pattern (name @ ''.'' @ sp @ ''at('' @ d @ '')'') = []"
    unfolding at_pattern_split line
    by (rule two_tokens_none [OF blocks_dot_tail identifier_word [OF n] _ p1 p2])
       (simp_all add: s0 s0a)
  show ?thesis
    using a b by (simp add: check_vector_access_single line_issues_of_def)
qed

lemma at_flagged_alone:
  assumes n: "is_identifier name"
    and sp: "list_all is_space sp1" "list_all is_space sp2" "list_all is_space sp3"
    and d: "list_all is_digit d" "d \<noteq> []"
  shows "check_vector_access [name @ ''.at'' @ sp1 @ ''('' @ sp2 @ d @ sp3 @ '')''] =
    Inr [at_msg name d 1]"
proof -
  let ?line = "name @ ''.at'' @ sp1 @ ''('' @ sp2 @ d @ sp3 @ '')''"
  let ?p2 = "sp1 @ ''('' @ sp2 @ d @ sp3 @ '')''"
  have p2: "list_all (\<lambda>c. \<not> is_idstart c) ?p2"
    using sp d(1) by (auto simp: list_all_iff dest: digit_not_idstart space_not_idstart)
  have hd2: "?p2 = [] \<or> \<not> is_word (hd ?p2)"
    using sp(1) by (cases sp1) (auto dest: space_not_word)
  have line: "?line = name @ ''.'' @ ''at'' @ ?p2" by simp
  have a: "finditer vector_access_pattern ?line = []"
    unfolding access_pattern_split line
  proof (rule two_tokens_none [OF blocks_access_tail identifier_word [OF n] _ _ p2 _ _ hd2])
    fix B MS
    show "rx_match [ws, One (Lit CHR ''[''), ws, Open, Plus Digit, Close, ws, One (Lit CHR '']'')]
        B ?p2 MS = None"
      using access_tail_needs_bracket [OF sp(1), of "CHR ''(''" B "sp2 @ d @ sp3 @ '')''" MS]
      by simp
  qed (simp_all add: ws_def)
  have "finditer vector_at_pattern ?line =
      [\<lparr> m_start = 0, m_end = length ?line, m_groups = [name, d] \<rparr>]"
    using finditer_from_Some [OF at_match_shape [OF n sp d, of "[]" "[]"]]
      at_match_obj [of "[]" name sp1 sp2 d sp3 "[]"]
    by (simp add: finditer_def at_text_def at_pattern_split finditer_from_end)
  with a show ?thesis
    by (simp add: check_vector_access_single line_issues_of_def)
qed

lemma fails_in_Nil [simp]: "fails_in r b [] v"
  by (simp add: fails_in_def)

lemma fails_inD:
  "fails_in r b u v \<Longrightarrow> u = u1 @ u2 \<Longrightarrow> u2 \<noteq> [] \<Longrightarrow>
   rx_match r (rev u1 @ b) (u2 @ v) [] = None"
  by (simp add: fails_in_def)

lemma fails_in_append:
  assumes "fails_in r b u (u' @ v)" and "fails_in r (rev u @ b) u' v"
  shows "fails_in r b (u @ u') v"
  unfolding fails_in_def
proof (intro allI impI)
  fix u1 u2 assume a: "u @ u' = u1 @ u2 \<and> u2 \<noteq> []"
  then obtain us where "(u = u1 @ us \<and> us @ u' = u2) \<or> (u @ us = u1 \<and> u' = us @ u2)"
    by (auto simp: append_eq_append_conv2)
  then show "rx_match r (rev u1 @ b) (u2 @ v) [] = None"
  proof
    assume c: "u = u1 @ us \<and> us @ u' = u2"
    show ?thesis
    proof (cases us)
      case Nil
      with c a fails_inD [OF assms(2), of "[]" u2] show ?thesis by simp
    next
      case (Cons y ys)
      with c fails_inD [OF assms(1), of u1 "y # ys"] show ?thesis by auto
    qed
  next
    assume c: "u @ us = u1 \<and> u' = us @ u2"
    with a fails_inD [OF assms(2), of us u2] show ?thesis by auto
  qed
qed

lemma fails_in_nonstart:
  "list_all (\<lambda>c. \<not> is_idstart c) u \<Longrightarrow> fails_in (Bnd # Open # One IdStart # r) b u v"
  unfolding fails_in_def
proof (intro allI impI)
  fix u1 u2 assume a: "list_all (\<lambda>c. \<not> is_idstart c) u" "u = u1 @ u2 \<and> u2 \<noteq> []"
  then obtain x xs where "u2 = x # xs" "\<not> is_idstart x" by (cases u2) auto
  then show "rx_match (Bnd # Open # One IdStart # r) (rev u1 @ b) (u2 @ v) [] = None"
    by simp
qed

lemma fails_in_interior:
  assumes "list_all is_word u" "b \<noteq> []" "is_word (hd b)"
  shows "fails_in (Bnd # r) b u v"
  unfolding fails_in_def
proof (intro allI impI)
  fix u1 u2 assume a: "u = u1 @ u2 \<and> u2 \<noteq> []"
  then obtain x xs where x: "u2 = x # xs" by (cases u2) auto
  with a assms(1) have wx: "is_word x" by simp
  have "u1 \<noteq> [] \<Longrightarrow> is_word (last u1)"
    using assms(1) a by (auto simp: list_all_iff)
  then have "rev u1 @ b \<noteq> []" "is_word (hd (rev u1 @ b))"
    using assms by (auto simp: hd_append hd_rev)
  then have "\<not> word_boundary (rev u1 @ b) (x # xs @ v)"
    using wx by (cases "rev u1 @ b") (simp_all add: word_boundary_def)
  then show "rx_match (Bnd # r) (rev u1 @ b) (u2 @ v) [] = None"
    by (simp add: x)
qed

lemma fails_in_single:
  "rx_match r b (x # v) [] = None \<Longrightarrow> fails_in r b [x] v"
  by (auto simp: fails_in_def Cons_eq_append_conv)

lemma fails_in_token:
  assumes bl: "blocks Word T" and tok: "list_all is_word tok"
    and v: "v = [] \<or> \<not> is_word (hd v)"
    and fail: "\<And>B MS. rx_match T B v MS = None"
  shows "fails_in (Bnd # Open # One IdStart # Star Word # Close # T) b tok v"
proof (cases tok)
  case Nil
  then show ?thesis by simp
next
  case (Cons i w)
  with tok have w: "list_all is_word w" and i: "is_word i" by simp_all
  let ?r = "Bnd # Open # One IdStart # Star Word # Close # T"
  have "rx_match ?r b (i # w @ v) [] = None"
    unfolding ident_prefix_det [OF bl]
    using takeWhile_token [OF w v] fail by simp
  then have 1: "fails_in ?r b [i] (w @ v)" by (rule fails_in_single)
  have 2: "fails_in ?r (rev [i] @ b) w v"
    using fails_in_interior [OF w, of "i # b"] i by simp
  from fails_in_append [OF 1 2] show ?thesis by (simp add: Cons)
qed

lemma matches_from_skip:
  "fails_in r b u v \<Longrightarrow> matches_from r b (u @ v) = matches_from r (rev u @ b) v"
proof (induction u arbitrary: b)
  case Nil
  show ?case by simp
next
  case (Cons x u)
  from fails_inD [OF Cons.prems, of "[]" "x # u"] have "rx_match r b (x # u @ v) [] = None"
    by simp
  moreover have "fails_in r (x # b) u v"
    unfolding fails_in_def
  proof (intro allI impI)
    fix u1 u2 assume "u = u1 @ u2 \<and> u2 \<noteq> []"
    with fails_inD [OF Cons.prems, of "x # u1" u2]
    show "rx_match r (rev u1 @ x # b) (u2 @ v) [] = None" by simp
  qed
  ultimately show ?case using Cons.IH [of "x # b"] by simp
qed

lemma finditer_eq_matches:
  assumes no: "\<And>b x cs s' b' ms. rx_match r b (x # cs @ s') [] = Some (b', s', ms) \<Longrightarrow>
      b' = rev (x # cs) @ b \<Longrightarrow> fails_in r (x # b) cs s'"
    and ne: "\<And>b s b' s' ms. rx_match r b s [] = Some (b', s', ms) \<Longrightarrow> length s' < length s"
  shows "finditer_from r b s = matches_from r b s"
proof (induction "length s" arbitrary: b s rule: less_induct)
  case less
  show ?case
  proof (cases "rx_match r b s []")
    case None
    show ?thesis
    proof (cases s)
      case Nil
      with None show ?thesis by (simp add: finditer_from_None)
    next
      case (Cons x xs)
      with None less [of xs "x # b"] show ?thesis by (simp add: finditer_from_None)
    qed
  next
    case (Some res)
    obtain b' s' ms where res: "res = (b', s', ms)" by (cases res)
    note found = Some [unfolded res]
    from ne [OF found] have lt: "length s' < length s" .
    from rx_match_consumed [OF found] obtain cs0 where cs0: "s = cs0 @ s'" "b' = rev cs0 @ b"
      by blast
    with lt obtain x cs where xc: "cs0 = x # cs" by (cases cs0) auto
    from no [of b x cs s' b' ms] found cs0 xc have f: "fails_in r (x # b) cs s'" by simp
    have "finditer_from r b s = mk_match b b' s' ms # finditer_from r b' s'"
      using finditer_from_Some [OF found] lt by simp
    also have "finditer_from r b' s' = matches_from r b' s'"
      using less [OF lt] .
    also have "mk_match b b' s' ms # matches_from r b' s' = matches_from r b s"
      using matches_from_skip [OF f] found cs0 xc by simp
    finally show ?thesis .
  qed
qed

lemma one_elim:
  "rx_match (One c # r) B s MS = Some res \<Longrightarrow>
   \<exists>x xs. s = x # xs \<and> cmatch c x \<and> rx_match r (x # B) xs MS = Some res"
  by (cases s) (auto split: if_splits)

lemma lit_elim:
  assumes "rx_match (lit v @ r) B s MS = Some res"
  shows "\<exists>rest. s = v @ rest \<and> rx_match r (rev v @ B) rest MS = Some res"
proof -
  from assms [unfolded lit_det]
  have tk: "take (length v) s = v" and r: "rx_match r (rev v @ B) (drop (length v) s) MS = Some res"
    by (auto split: if_splits)
  have "s = v @ drop (length v) s"
    using append_take_drop_id [of "length v" s] by (simp only: tk)
  with r show ?thesis by blast
qed

lemma paren_tail_shape:
  assumes "rx_match [ws, One (Lit CHR ''(''), ws, One (Lit CHR '')'')] B R MS = Some (b', s', ms)"
  shows "\<exists>sp1 sp2. R = sp1 @ CHR ''('' # sp2 @ CHR '')'' # s'
     \<and> list_all is_space sp1 \<and> list_all is_space sp2"
proof -
  from assms have "rx_match (One (Lit CHR ''('') # [Star Space, One (Lit CHR '')'')])
      (rev (takeWhile is_space R) @ B) (dropWhile is_space R) MS = Some (b', s', ms)"
    by (simp add: ws_def star_det)
  from one_elim [OF this] obtain R2 where R2: "dropWhile is_space R = CHR ''('' # R2"
    and t: "rx_match [Star Space, One (Lit CHR '')'')]
      (CHR ''('' # rev (takeWhile is_space R) @ B) R2 MS = Some (b', s', ms)"
    by auto
  from t have "rx_match (One (Lit CHR '')'') # [])
      (rev (takeWhile is_space R2) @ CHR ''('' # rev (takeWhile is_space R) @ B)
      (dropWhile is_space R2) MS = Some (b', s', ms)"
    by (simp add: star_det)
  from one_elim [OF this] have R3: "dropWhile is_space R2 = CHR '')'' # s'"
    by auto
  have "R = takeWhile is_space R @ dropWhile is_space R" by simp
  also have "dropWhile is_space R = CHR ''('' # R2" by (rule R2)
  also have "R2 = takeWhile is_space R2 @ dropWhile is_space R2" by simp
  also have "dropWhile is_space R2 = CHR '')'' # s'" by (rule R3)
  finally have "R = takeWhile is_space R @ CHR ''('' # takeWhile is_space R2 @ CHR '')'' # s'" .
  moreover have "list_all is_space (takeWhile is_space R)"
    "list_all is_space (takeWhile is_space R2)"
    by (auto simp: list_all_iff dest: set_takeWhileD)
  ultimately show ?thesis by blast
qed

lemma empty_match_shape:
  assumes m: "rx_match vector_empty_check_pattern b s [] = Some (b', s', ms)"
  shows "\<exists>i w sp1 sp2. s = i # w @ ''.empty'' @ sp1 @ CHR ''('' # sp2 @ CHR '')'' # s'
     \<and> is_idstart i \<and> list_all is_word w \<and> list_all is_space sp1 \<and> list_all is_space sp2"
proof -
  let ?T = "[ws, One (Lit CHR ''(''), ws, One (Lit CHR '')'')]"
  from m [unfolded empty_pattern_split ident_prefix_det [OF blocks_empty_tail]]
  obtain i t where s: "s = i # t" and i: "is_idstart i"
    and tl: "rx_match (lit ''.empty'' @ ?T) (rev (takeWhile is_word t) @ i # b)
       (dropWhile is_word t)
       [length b, Suc (length b + length (takeWhile is_word t))] = Some (b', s', ms)"
    by (auto split: list.splits if_splits)
  from lit_elim [OF tl] obtain R1 where D: "dropWhile is_word t = ''.empty'' @ R1"
    and t2: "rx_match ?T (rev ''.empty'' @ rev (takeWhile is_word t) @ i # b) R1
       [length b, Suc (length b + length (takeWhile is_word t))] = Some (b', s', ms)"
    by blast
  from paren_tail_shape [OF t2] obtain sp1 sp2
    where R1: "R1 = sp1 @ CHR ''('' # sp2 @ CHR '')'' # s'"
      and sp: "list_all is_space sp1" "list_all is_space sp2" by blast
  have "t = takeWhile is_word t @ dropWhile is_word t" by simp
  also have "dropWhile is_word t = ''.empty'' @ R1" by (rule D)
  finally have "s = i # takeWhile is_word t @ ''.empty'' @ sp1 @ CHR ''('' # sp2 @ CHR '')'' # s'"
    by (simp only: s R1)
  moreover have "list_all is_word (takeWhile is_word t)"
    by (auto simp: list_all_iff dest: set_takeWhileD)
  ultimately show ?thesis using i sp by blast
qed

lemma word_empty: "list_all is_word ''empty''"
  by (simp add: is_word_def is_idstart_def code_def)

lemma space_not_dot: "is_space c \<Longrightarrow> c \<noteq> CHR ''.''"
  by auto

lemma empty_no_overlap:
  assumes m: "rx_match vector_empty_check_pattern b (x # cs @ s') [] = Some (b', s', ms)"
  shows "fails_in vector_empty_check_pattern (x # b) cs s'"
proof -
  let ?T = "lit ''.empty'' @ [ws, One (Lit CHR ''(''), ws, One (Lit CHR '')'')]"
  from empty_match_shape [OF m] obtain i w sp1 sp2 where
    sh: "x # cs @ s' = i # w @ ''.empty'' @ sp1 @ CHR ''('' # sp2 @ CHR '')'' # s'"
    and i: "is_idstart i" and w: "list_all is_word w"
    and sp: "list_all is_space sp1" "list_all is_space sp2" by blast
  let ?p2 = "sp1 @ CHR ''('' # sp2 @ '')''"
  from sh have x: "x = i" and "cs @ s' = (w @ ''.'' @ ''empty'' @ ?p2) @ s'" by simp_all
  then have cs: "cs = w @ ''.'' @ ''empty'' @ ?p2" by (simp only: append_same_eq)
  have p2: "list_all (\<lambda>c. \<not> is_idstart c) ?p2"
    using sp by (auto simp: list_all_iff dest: space_not_idstart)
  have hd2: "?p2 @ s' = [] \<or> \<not> is_word (hd (?p2 @ s'))"
    using sp(1) by (cases sp1) (auto dest: space_not_word)
  have fail: "rx_match ?T B (?p2 @ s') MS = None" for B MS
    using sp(1) by (cases sp1) (auto simp: lit_def dest: space_not_dot)
  have A: "fails_in vector_empty_check_pattern (i # b) w ((''.'' @ ''empty'' @ ?p2) @ s')"
    unfolding empty_pattern_split
    using fails_in_interior [OF w, of "i # b"] i by (simp add: idstart_word)
  have B: "fails_in vector_empty_check_pattern (rev w @ i # b) ''.'' ((''empty'' @ ?p2) @ s')"
    unfolding empty_pattern_split by (rule fails_in_nonstart) simp
  have C: "fails_in vector_empty_check_pattern (rev ''.'' @ rev w @ i # b) ''empty'' (?p2 @ s')"
    unfolding empty_pattern_split
    by (rule fails_in_token [OF blocks_empty_tail word_empty hd2 fail])
  have D: "fails_in vector_empty_check_pattern
      (rev ''empty'' @ rev ''.'' @ rev w @ i # b) ?p2 s'"
    unfolding empty_pattern_split by (rule fails_in_nonstart [OF p2])
  from fails_in_append [OF C D]
  have CD: "fails_in vector_empty_check_pattern (rev ''.'' @ rev w @ i # b) (''empty'' @ ?p2) s'"
    by simp
  from fails_in_append [OF B] CD
  have BCD: "fails_in vector_empty_check_pattern (rev w @ i # b) (''.'' @ ''empty'' @ ?p2) s'"
    by simp
  from fails_in_append [OF A] BCD
  have "fails_in vector_empty_check_pattern (i # b) (w @ ''.'' @ ''empty'' @ ?p2) s'"
    by simp
  then show ?thesis by (simp only: x cs)
qed

lemma empty_match_nonempty:
  "rx_match vector_empty_check_pattern b s [] = Some (b', s', ms) \<Longrightarrow> length s' < length s"
  by (auto dest!: empty_match_shape)

lemma finditer_empty_occurrences:
  "finditer vector_empty_check_pattern line = occurrences vector_empty_check_pattern line"
  unfolding finditer_def occurrences_def
  by (rule finditer_eq_matches [OF empty_no_overlap empty_match_nonempty])

lemma re_search_finditer:
  "is_identifier n \<Longrightarrow>
   re_search (empty_check_rx n) line \<longleftrightarrow>
   list_ex (\<lambda>m. group m 1 = Inr n) (finditer vector_empty_check_pattern line)"
  by (simp add: re_search_occurrences finditer_empty_occurrences)

lemma empty_check_found_iff:
  "is_identifier n \<Longrightarrow> empty_check_found file_lines n = has_empty_check file_lines n"
  by (simp add: empty_check_found_def has_empty_check_def list_ex_iff re_search_finditer)


lemma index_tail_elim:
  assumes m: "rx_match [Star Space, Open, Plus Digit, Close, Star Space, One (Lit c)] B R MS
      = Some (b', s', ms)"
    and c: "\<not> is_digit c" "\<not> is_space c"
  shows "\<exists>sp2 d sp3. R = sp2 @ d @ sp3 @ c # s' \<and> list_all is_space sp2
     \<and> list_all is_space sp3 \<and> list_all is_digit d \<and> d \<noteq> []"
proof -
  let ?R1 = "dropWhile is_space R"
  let ?R2 = "dropWhile is_digit ?R1"
  from m c have d: "takeWhile is_digit ?R1 \<noteq> []"
    and t: "\<exists>B' MS'. rx_match (One (Lit c) # []) B' (dropWhile is_space ?R2) MS'
        = Some (b', s', ms)"
    by (auto simp: star_det plus_det split: if_splits)
  from t obtain B' MS' where "rx_match (One (Lit c) # []) B' (dropWhile is_space ?R2) MS'
        = Some (b', s', ms)" by blast
  from one_elim [OF this] have R3: "dropWhile is_space ?R2 = c # s'" by auto
  have "R = takeWhile is_space R @ ?R1" by simp
  also have "?R1 = takeWhile is_digit ?R1 @ ?R2" by simp
  also have "?R2 = takeWhile is_space ?R2 @ dropWhile is_space ?R2" by simp
  also have "dropWhile is_space ?R2 = c # s'" by (rule R3)
  finally have "R = takeWhile is_space R @ takeWhile is_digit ?R1 @ takeWhile is_space ?R2 @ c # s'" .
  moreover have "list_all is_space (takeWhile is_space R)"
    "list_all is_digit (takeWhile is_digit ?R1)" "list_all is_space (takeWhile is_space ?R2)"
    by (auto simp: list_all_iff dest: set_takeWhileD)
  ultimately show ?thesis using d by blast
qed


lemma at_match_elim:
  assumes m: "rx_match vector_at_pattern b s [] = Some (b', s', ms)"
  shows "\<exists>name sp1 sp2 d sp3.
      s = name @ ''.at'' @ sp1 @ CHR ''('' # sp2 @ d @ sp3 @ CHR '')'' # s'
    \<and> is_identifier name \<and> list_all is_space sp1 \<and> list_all is_space sp2
    \<and> list_all is_space sp3 \<and> list_all is_digit d \<and> d \<noteq> []
    \<and> (b = [] \<or> \<not> is_word (hd b))"
proof -
  let ?I = "[Star Space, Open, Plus Digit, Close, Star Space, One (Lit CHR '')'')]"
  from m [unfolded at_pattern_split ident_prefix_det [OF blocks_dot_tail]]
  obtain i t where s: "s = i # t" and i: "is_idstart i" and wb: "word_boundary b (i # t)"
    and tl: "rx_match (lit ''.at'' @ ws # One (Lit CHR ''('') # ?I)
       (rev (takeWhile is_word t) @ i # b) (dropWhile is_word t)
       [length b, Suc (length b + length (takeWhile is_word t))] = Some (b', s', ms)"
    by (auto simp: ws_def lit_def split: list.splits if_splits)
  let ?D = "dropWhile is_word t"
  from lit_elim [OF tl] obtain R0 where D: "?D = ''.at'' @ R0"
    and t1: "rx_match (ws # One (Lit CHR ''('') # ?I)
       (rev ''.at'' @ rev (takeWhile is_word t) @ i # b) R0
       [length b, Suc (length b + length (takeWhile is_word t))] = Some (b', s', ms)"
    by blast
  from t1 have "rx_match (One (Lit CHR ''('') # ?I)
       (rev (takeWhile is_space R0) @ rev ''.at'' @ rev (takeWhile is_word t) @ i # b)
       (dropWhile is_space R0)
       [length b, Suc (length b + length (takeWhile is_word t))] = Some (b', s', ms)"
    by (simp add: ws_def star_det)
  from one_elim [OF this] obtain R where R: "dropWhile is_space R0 = CHR ''('' # R"
    and t2: "rx_match ?I
       (CHR ''('' # rev (takeWhile is_space R0) @ rev ''.at'' @ rev (takeWhile is_word t) @ i # b)
       R [length b, Suc (length b + length (takeWhile is_word t))] = Some (b', s', ms)"
    by auto
  from index_tail_elim [OF t2] obtain sp2 d sp3
    where R2: "R = sp2 @ d @ sp3 @ CHR '')'' # s'"
      and sd: "list_all is_space sp2" "list_all is_space sp3" "list_all is_digit d" "d \<noteq> []"
    by auto
  have "t = takeWhile is_word t @ ?D" by simp
  also have "?D = ''.at'' @ R0" by (rule D)
  also have "R0 = takeWhile is_space R0 @ dropWhile is_space R0" by simp
  also have "dropWhile is_space R0 = CHR ''('' # R" by (rule R)
  finally have "s = (i # takeWhile is_word t) @ ''.at'' @ takeWhile is_space R0 @ CHR ''('' #
      sp2 @ d @ sp3 @ CHR '')'' # s'"
    by (simp only: s R2 append_Cons)
  moreover have "is_identifier (i # takeWhile is_word t)"
    using i by (auto simp: is_identifier_def list_all_iff dest: set_takeWhileD)
  moreover have "list_all is_space (takeWhile is_space R0)"
    by (auto simp: list_all_iff dest: set_takeWhileD)
  moreover have "b = [] \<or> \<not> is_word (hd b)"
    using wb i by (simp add: boundary_start idstart_word)
  ultimately show ?thesis using sd by blast
qed









lemma at_space_before_dot:
  assumes n: "is_identifier name" and sp: "list_all is_space sp" "sp \<noteq> []"
  shows "rx_match vector_at_pattern b (name @ sp @ rest) [] = None"
proof -
  from sp obtain s0 sp' where s0: "sp = s0 # sp'" "is_space s0" by (cases sp) auto
  then have "\<not> is_word s0" "s0 \<noteq> CHR ''.''"
    by (auto dest: space_not_word)
  from at_needs_dot [OF n this, of b "sp' @ rest"] show ?thesis by (simp add: s0(1))
qed

lemma no_issue_space_before_dot:
  assumes n: "is_identifier name" and sp: "list_all is_space sp" "sp \<noteq> []"
    and d: "list_all is_digit d"
  shows "check_vector_access [name @ sp @ ''.at('' @ d @ '')''] = Inr []"
proof -
  from sp obtain s0 sp' where s0: "sp = s0 # sp'" "is_space s0" by (cases sp) auto
  then have s0d: "s0 \<noteq> CHR ''.''" by auto
  have p1: "list_all (\<lambda>c. \<not> is_idstart c) (sp @ ''.'')"
    using sp(1) by (auto simp: list_all_iff dest: space_not_idstart)
  have p2: "list_all (\<lambda>c. \<not> is_idstart c) (''('' @ d @ '')'')"
    using d by (auto simp: list_all_iff dest: digit_not_idstart)
  have h1: "sp @ ''.'' \<noteq> []" "\<not> is_word (hd (sp @ ''.''))"
    using s0 by (auto dest: space_not_word)
  have line: "name @ sp @ ''.at('' @ d @ '')'' = name @ (sp @ ''.'') @ ''at'' @ (''('' @ d @ '')'')"
    by simp
  have a: "finditer vector_access_pattern (name @ sp @ ''.at('' @ d @ '')'') = []"
    unfolding access_pattern_split line
  proof (rule two_tokens_none [OF blocks_access_tail identifier_word [OF n] _ p1 p2 h1])
    fix B MS
    show "rx_match [ws, One (Lit CHR ''[''), ws, Open, Plus Digit, Close, ws, One (Lit CHR '']'')]
        B ((sp @ ''.'') @ ''at'' @ ''('' @ d @ '')'') MS = None"
      using access_tail_needs_bracket [OF sp(1), of "CHR ''.''" B "''at'' @ ''('' @ d @ '')''" MS]
      by simp
  qed (simp_all add: ws_def)
  have b: "finditer vector_at_pattern (name @ sp @ ''.at('' @ d @ '')'') = []"
    unfolding at_pattern_split line
    by (rule two_tokens_none [OF blocks_dot_tail identifier_word [OF n] _ p1 p2 h1])
       (simp_all add: s0 s0d)
  show ?thesis
    using a b by (simp add: check_vector_access_single line_issues_of_def)
qed







section \<open>The claims of the specification\<close>

lemma iter_single: "set_iteration iter \<Longrightarrow> iter [x] = [x]"
  using mset_single_iff [of "iter [x]" x] by (simp add: set_iteration_def)

lemma ex_pass1:
  "check_vector_access [example_line] =
    Inr [''Warning: Potential out-of-range access using '' @ apos @ ''v[2]'' @ apos @ '' at line 1'',
         ''Info: Safe access found using '' @ apos @ ''v.at(0)'' @ apos @ '' at line 1'']"
  by code_simp

lemma ex_accessed: "vectors_accessed [example_line] = [(''v'', 1)]"
  by code_simp

lemma ex_missing: "missing_of [example_line] (''v'', Suc 0) = []"
  by code_simp

text \<open>
  C1. For the one-line file of the end-to-end example the first scan returns the
  out-of-range warning for \<open>v[2]\<close> and then the safe-access note for \<open>v.at(0)\<close>, both at
  line 1; the second scan returns nothing, whatever the iteration order of the set; and
  the report printed is the header followed by exactly these two lines.
\<close>
theorem end_to_end_example:
  assumes "set_iteration iter" and "fs file_path = Inr [example_line]"
  shows "check_vector_access [example_line] =
      Inr [''Warning: Potential out-of-range access using '' @ apos @ ''v[2]'' @ apos @ '' at line 1'',
           ''Info: Safe access found using '' @ apos @ ''v.at(0)'' @ apos @ '' at line 1'']
    \<and> check_empty_before_access iter [example_line] = Inr []
    \<and> analyze_cpp_file iter fs file_path out =
        (Inr (), out @
          [''Issues found in '' @ file_path @ '':'',
           ''  Warning: Potential out-of-range access using '' @ apos @ ''v[2]'' @ apos @ '' at line 1'',
           ''  Info: Safe access found using '' @ apos @ ''v.at(0)'' @ apos @ '' at line 1''])"
proof -
  have p2: "check_empty_before_access iter [example_line] = Inr []"
    by (simp add: check_empty_before_access_total [OF assms(1)] ex_accessed
          iter_single [OF assms(1)] ex_missing)
  show ?thesis
    by (simp add: ex_pass1 p2 analyze_cpp_file_def assms(2) report_def)
qed

text \<open>
  The example with the set iterated in insertion order, read through a file system that
  holds the line.
\<close>
theorem end_to_end_example_witness:
  "set_iteration id \<and> (\<lambda>p. Inr [example_line]) ''a.cpp'' = (Inr [example_line] :: error + string list)
   \<and> check_empty_before_access id [example_line] = Inr []
   \<and> length (snd (analyze_cpp_file id (\<lambda>p. Inr [example_line]) ''a.cpp'' [])) = 3"
  using end_to_end_example [of id "\<lambda>p. Inr [example_line]" "''a.cpp''" "[]"]
  by (simp add: set_iteration_id)

text \<open>
  C7. Both scans return a list of issues for every sequence of lines: no group is ever
  missing from a match, and every collected name can be pasted into the run-time
  pattern. Termination is part of the definitions of the matcher and of the scan.
\<close>
theorem scans_total:
  assumes "set_iteration iter"
  shows "(\<exists>issues. check_vector_access file_lines = Inr issues)
    \<and> (\<exists>issues. check_empty_before_access iter file_lines = Inr issues)"
  by (simp add: check_vector_access_total check_empty_before_access_total [OF assms])

text \<open>
  The scans on an empty line and on lines with unmatched brackets and parentheses.
\<close>
theorem scans_total_witness:
  "set_iteration rev
   \<and> (\<exists>issues. check_vector_access [[], ''v[ ]x[3'', '']] ) ( a.at(''] = Inr issues)
   \<and> (\<exists>issues. check_empty_before_access rev [[], ''v[ ]x[3'', '']] ) ( a.at(''] = Inr issues)"
  using scans_total [of rev "[[], ''v[ ]x[3'', '']] ) ( a.at('']"]
  by (simp add: set_iteration_rev)

text \<open>
  C8, as stated, fails: a file whose bytes cannot be decoded makes \<open>analyze_cpp_file\<close>
  fail with a \<open>UnicodeDecodeError\<close>, which is not an \<open>IOError\<close>.
\<close>
theorem decode_failure_counterexample:
  "analyze_cpp_file id (read_file (\<lambda>p. NotDecodable)) ''a.cpp'' [] = (Inl UnicodeDecodeError, [])
   \<and> UnicodeDecodeError \<noteq> IOError"
  by (simp add: analyze_cpp_file_def read_file_def)

text \<open>
  C8, amended. \<open>analyze_cpp_file\<close> fails with the error raised by opening or reading the
  file: an \<open>IOError\<close> when the file cannot be opened, a \<open>UnicodeDecodeError\<close> when it cannot be
  decoded; in both cases the output is what it was before the call. When the file can be
  read, both scans return their issues, the result is the unit value, and the call
  prints the line \<open>No issues found in\<close> with the path when there is no issue, and otherwise
  the header \<open>Issues found in\<close> with the path and a colon followed by one line per issue,
  indented by two blanks, the issues of the first scan before those of the second.
\<close>
theorem analyze_cpp_file_outcomes:
  assumes "set_iteration iter"
  shows "(disk file_path = NotOpenable \<longrightarrow>
        analyze_cpp_file iter (read_file disk) file_path out = (Inl IOError, out))
    \<and> (disk file_path = NotDecodable \<longrightarrow>
        analyze_cpp_file iter (read_file disk) file_path out = (Inl UnicodeDecodeError, out))
    \<and> (\<forall>file_lines. disk file_path = Readable file_lines \<longrightarrow>
        (\<exists>i1 i2. check_vector_access file_lines = Inr i1
           \<and> check_empty_before_access iter file_lines = Inr i2
           \<and> analyze_cpp_file iter (read_file disk) file_path out =
               (Inr (), out @
                 (if i1 @ i2 = [] then [''No issues found in '' @ file_path]
                  else (''Issues found in '' @ file_path @ '':'')
                       # map (\<lambda>issue. ''  '' @ issue) (i1 @ i2)))))"
  by (simp add: analyze_cpp_file_def read_file_def report_def check_vector_access_total
        check_empty_before_access_total [OF assms])

text \<open>
  A path that cannot be opened, a path whose bytes cannot be decoded, a file without
  accesses and a file with one unchecked access.
\<close>
theorem analyze_cpp_file_outcomes_witness:
  "set_iteration id
   \<and> analyze_cpp_file id (read_file (\<lambda>p. NotOpenable)) ''a.cpp'' [''earlier'']
       = (Inl IOError, [''earlier''])
   \<and> analyze_cpp_file id (read_file (\<lambda>p. NotDecodable)) ''a.cpp'' [''earlier'']
       = (Inl UnicodeDecodeError, [''earlier''])
   \<and> analyze_cpp_file id (read_file (\<lambda>p. Readable [''int x;''])) ''a.cpp'' [''earlier'']
       = (Inr (), [''earlier'', ''No issues found in a.cpp''])
   \<and> analyze_cpp_file id (read_file (\<lambda>p. Readable [''v[0]''])) ''a.cpp'' []
       = (Inr (), [''Issues found in a.cpp:'',
            ''  Warning: Potential out-of-range access using '' @ apos @ ''v[0]'' @ apos
              @ '' at line 1'',
            ''  Warning: No empty() check found before accessing '' @ apos @ ''v'' @ apos
              @ '' at line 1''])"
proof -
  have a: "check_vector_access [''int x;''] = Inr []"
    "check_empty_before_access id [''int x;''] = Inr []"
    "check_vector_access [''v[0]''] =
      Inr [''Warning: Potential out-of-range access using '' @ apos @ ''v[0]'' @ apos
              @ '' at line 1'']"
    "check_empty_before_access id [''v[0]''] =
      Inr [''Warning: No empty() check found before accessing '' @ apos @ ''v'' @ apos
              @ '' at line 1'']"
    by code_simp+
  show ?thesis
    using analyze_cpp_file_outcomes [OF set_iteration_id, of "\<lambda>p. NotOpenable" "''a.cpp''" "[''earlier'']"]
      analyze_cpp_file_outcomes [OF set_iteration_id, of "\<lambda>p. NotDecodable" "''a.cpp''" "[''earlier'']"]
      analyze_cpp_file_outcomes [OF set_iteration_id, of "\<lambda>p. Readable [''int x;'']" "''a.cpp''" "[''earlier'']"]
      analyze_cpp_file_outcomes [OF set_iteration_id, of "\<lambda>p. Readable [''v[0]'']" "''a.cpp''" "[]"]
      a
    by (simp add: set_iteration_id)
qed


text \<open>
  C3, as stated, fails: \<open>v. at(3)\<close>, with a blank between the dot and \<open>at\<close>, is not
  matched and nothing is reported.
\<close>
theorem space_after_dot_counterexample:
  "check_vector_access [''v. at(3)''] = Inr []"
  by code_simp

text \<open>
  C6, as stated, fails: for the line \<open>a[0] b[1]\<close> two iteration orders of the same set
  give two different reports.
\<close>
theorem iteration_order_counterexample:
  "set_iteration id \<and> set_iteration rev
   \<and> snd (analyze_cpp_file id (\<lambda>p. Inr [''a[0] b[1]'']) ''f.cpp'' [])
     \<noteq> snd (analyze_cpp_file rev (\<lambda>p. Inr [''a[0] b[1]'']) ''f.cpp'' [])"
proof -
  have "snd (analyze_cpp_file id (\<lambda>p. Inr [''a[0] b[1]'']) ''f.cpp'' [])
     \<noteq> snd (analyze_cpp_file rev (\<lambda>p. Inr [''a[0] b[1]'']) ''f.cpp'' [])"
    by code_simp
  then show ?thesis by (simp add: set_iteration_id set_iteration_rev)
qed

text \<open>
  C4. The second scan returns one warning for each pair of a list \<open>ps\<close> without
  repetitions, the warnings themselves are pairwise different, and a pair (name, line)
  is in \<open>ps\<close> if and only if \<open>finditer\<close> has a match of one of the two access patterns on that
  line with that name as its first group, and on no line of the file \<open>finditer\<close> has a
  match of the empty-check pattern with that name as its group.
\<close>
theorem missing_empty_check_iff:
  assumes "set_iteration iter"
  shows "\<exists>ps. check_empty_before_access iter file_lines =
        Inr (map (\<lambda>(name, line_num). missing_msg name line_num) ps)
     \<and> distinct ps
     \<and> distinct (map (\<lambda>(name, line_num). missing_msg name line_num) ps)
     \<and> (\<forall>name line_num. (name, line_num) \<in> set ps \<longleftrightarrow>
           accessed_on file_lines name line_num \<and> \<not> has_empty_check file_lines name)"
proof -
  let ?acc = "vectors_accessed file_lines"
  let ?ps = "filter (\<lambda>(n, l). \<not> empty_check_found file_lines n) (iter ?acc)"
  have eq: "check_empty_before_access iter file_lines =
        Inr (map (\<lambda>(name, line_num). missing_msg name line_num) ?ps)"
    by (simp add: check_empty_before_access_total [OF assms] concat_missing_of)
  have d: "distinct ?ps"
    by (simp add: set_iteration_distinct [OF assms] distinct_vectors_accessed)
  have sub: "p \<in> set ?ps \<Longrightarrow> p \<in> set ?acc" for p
    by (simp add: set_iteration_set [OF assms])
  have inj: "inj_on (\<lambda>(name, line_num). missing_msg name line_num) (set ?ps)"
  proof (rule inj_onI)
    fix p q assume p: "p \<in> set ?ps" and q: "q \<in> set ?ps"
      and e: "(case p of (name, line_num) \<Rightarrow> missing_msg name line_num)
            = (case q of (name, line_num) \<Rightarrow> missing_msg name line_num)"
    obtain n l n' l' where pq: "p = (n, l)" "q = (n', l')" by (cases p, cases q) auto
    from sub [OF p] sub [OF q] pq have "is_identifier n" "is_identifier n'"
      by (auto dest: accessed_identifier)
    from missing_msg_inj [OF this] e pq show "p = q" by simp
  qed
  have mem: "(name, line_num) \<in> set ?ps \<longleftrightarrow>
      accessed_on file_lines name line_num \<and> \<not> has_empty_check file_lines name"
    for name line_num
  proof (cases "(name, line_num) \<in> set ?acc")
    case True
    then have "is_identifier name" by (rule accessed_identifier)
    then show ?thesis
      using True by (simp add: set_iteration_set [OF assms] empty_check_found_iff
          in_vectors_accessed_iff [symmetric])
  next
    case False
    then show ?thesis
      by (simp add: set_iteration_set [OF assms] in_vectors_accessed_iff [symmetric])
  qed
  from eq d inj mem show ?thesis
    by (intro exI [of _ ?ps]) (simp add: distinct_map)
qed

text \<open>
  A file where \<open>v\<close> is read twice on line 1 and never checked, and \<open>w\<close> is read on
  line 1 and checked on line 2: the only warning is the one for \<open>v\<close> at line 1.
\<close>
theorem missing_empty_check_iff_witness:
  "set_iteration id
   \<and> check_empty_before_access id [''v[0] v[1] w.at(2)'', ''w.empty()'']
       = Inr [missing_msg ''v'' 1]
   \<and> accessed_on [''v[0] v[1] w.at(2)'', ''w.empty()''] ''v'' 1
   \<and> \<not> has_empty_check [''v[0] v[1] w.at(2)'', ''w.empty()''] ''v''
   \<and> accessed_on [''v[0] v[1] w.at(2)'', ''w.empty()''] ''w'' 1
   \<and> has_empty_check [''v[0] v[1] w.at(2)'', ''w.empty()''] ''w''"
proof -
  have a: "check_empty_before_access id [''v[0] v[1] w.at(2)'', ''w.empty()'']
       = Inr [missing_msg ''v'' 1]"
    by code_simp
  have b: "accessed_on [''v[0] v[1] w.at(2)'', ''w.empty()''] ''v'' 1"
    "\<not> has_empty_check [''v[0] v[1] w.at(2)'', ''w.empty()''] ''v''"
    "accessed_on [''v[0] v[1] w.at(2)'', ''w.empty()''] ''w'' 1"
    "has_empty_check [''v[0] v[1] w.at(2)'', ''w.empty()''] ''w''"
    by code_simp+
  show ?thesis
    using missing_empty_check_iff [of id "[''v[0] v[1] w.at(2)'', ''w.empty()'']"] a b
    by (simp add: set_iteration_id)
qed

text \<open>
  C9. For every name collected by the first loop of \<open>check_empty_before_access\<close> the
  pattern built at run time is well formed, and \<open>re.search\<close> finds it in a line if and only
  if \<open>finditer\<close> has a match of the empty-check pattern in that line whose group is exactly
  that name.
\<close>
theorem empty_check_regex_exact:
  assumes "collect_accessed file_lines = Inr acc" and "(name, line_num) \<in> set acc"
  shows "\<exists>r. empty_check_regex name = Inr r
     \<and> (\<forall>line. re_search r line \<longleftrightarrow>
           list_ex (\<lambda>m. group m 1 = Inr name) (finditer vector_empty_check_pattern line))"
proof -
  from assms have "(name, line_num) \<in> set (vectors_accessed file_lines)"
    by (simp add: collect_accessed_total)
  then have n: "is_identifier name" by (rule accessed_identifier)
  show ?thesis
    using empty_check_regex_total [OF n] re_search_finditer [OF n] by blast
qed

text \<open>
  The name \<open>v\<close>, read on line 1: its pattern is found in \<open>v.empty ( )\<close> and is not found in
  \<open>xv.empty()\<close> nor in \<open>v2.empty()\<close>, which hold no empty check of \<open>v\<close>.
\<close>
theorem empty_check_regex_exact_witness:
  "collect_accessed [''v[0]''] = Inr [(''v'', 1)] \<and> (''v'', 1) \<in> set [(''v'', 1 :: nat)]
   \<and> (\<exists>r. empty_check_regex ''v'' = Inr r
        \<and> re_search r ''if (!v.empty ( ))''
        \<and> \<not> re_search r ''xv.empty()''
        \<and> \<not> re_search r ''v2.empty()''
        \<and> \<not> list_ex (\<lambda>m. group m 1 = Inr ''v'') (finditer vector_empty_check_pattern ''xv.empty()'')
        \<and> \<not> list_ex (\<lambda>m. group m 1 = Inr ''v'') (finditer vector_empty_check_pattern ''v2.empty()''))"
proof -
  have c: "collect_accessed [''v[0]''] = Inr [(''v'', 1)]" by code_simp
  have e: "empty_check_regex ''v'' = Inr (empty_check_rx ''v'')" by code_simp
  have s: "re_search (empty_check_rx ''v'') ''if (!v.empty ( ))''"
    "\<not> re_search (empty_check_rx ''v'') ''xv.empty()''"
    "\<not> re_search (empty_check_rx ''v'') ''v2.empty()''"
    by code_simp+
  from empty_check_regex_exact [OF c, of "''v''" 1] e
  have "\<forall>line. re_search (empty_check_rx ''v'') line \<longleftrightarrow>
      list_ex (\<lambda>m. group m 1 = Inr ''v'') (finditer vector_empty_check_pattern line)"
    by simp
  with c e s show ?thesis by simp
qed

text \<open>
  C10. Every warning of the second scan is the warning of a pair (name, line) for which
  the first scan has an issue, a warning or a note, with the same name and the same line
  number.
\<close>
theorem missing_warning_has_access_issue:
  assumes "set_iteration iter"
  shows "\<exists>out1 ps. check_vector_access file_lines = Inr out1
     \<and> check_empty_before_access iter file_lines =
         Inr (map (\<lambda>(name, line_num). missing_msg name line_num) ps)
     \<and> (\<forall>(name, line_num) \<in> set ps.
           \<exists>index. access_msg name index line_num \<in> set out1
                 \<or> at_msg name index line_num \<in> set out1)"
proof -
  let ?acc = "vectors_accessed file_lines"
  let ?ps = "filter (\<lambda>(n, l). \<not> empty_check_found file_lines n) (iter ?acc)"
  let ?out1 = "concat (map line_issues_of (List.enumerate 1 file_lines))"
  have eq: "check_empty_before_access iter file_lines =
        Inr (map (\<lambda>(name, line_num). missing_msg name line_num) ?ps)"
    by (simp add: check_empty_before_access_total [OF assms] concat_missing_of)
  have "\<exists>index. access_msg n index l \<in> set ?out1 \<or> at_msg n index l \<in> set ?out1"
    if "(n, l) \<in> set ?ps" for n l
  proof -
    from that have "(n, l) \<in> set ?acc" by (simp add: set_iteration_set [OF assms])
    then show ?thesis by (rule accessed_has_issue)
  qed
  then have "\<forall>(name, line_num) \<in> set ?ps.
           \<exists>index. access_msg name index line_num \<in> set ?out1
                 \<or> at_msg name index line_num \<in> set ?out1"
    by blast
  with eq check_vector_access_total [of file_lines] show ?thesis by blast
qed

text \<open>
  A file with an unchecked read of \<open>a\<close> on line 1 and a checked read of \<open>b\<close> on line 2:
  the one warning of the second scan, for \<open>a\<close> at line 1, has its counterpart in the
  first scan.
\<close>
theorem missing_warning_has_access_issue_witness:
  "set_iteration rev
   \<and> check_empty_before_access rev [''a[0]'', ''b.at(1) b.empty()''] = Inr [missing_msg ''a'' 1]
   \<and> check_vector_access [''a[0]'', ''b.at(1) b.empty()'']
       = Inr [access_msg ''a'' ''0'' 1, at_msg ''b'' ''1'' 2]"
proof -
  have a: "check_empty_before_access rev [''a[0]'', ''b.at(1) b.empty()''] = Inr [missing_msg ''a'' 1]"
    by code_simp
  have b: "check_vector_access [''a[0]'', ''b.at(1) b.empty()'']
       = Inr [access_msg ''a'' ''0'' 1, at_msg ''b'' ''1'' 2]"
    by code_simp
  show ?thesis
    using missing_warning_has_access_issue [of rev "[''a[0]'', ''b.at(1) b.empty()'']"] a b
    by (simp add: set_iteration_rev)
qed





text \<open>
  C3, amended. The token \<open>at\<close> must follow the dot at once, and the dot the identifier;
  white space may stand only between \<open>at\<close> and the parenthesis and around the digits. The
  safe-access pattern matches at a position exactly when the position is at a word
  boundary and the text there is an identifier, \<open>.at\<close>, white space, \<open>(\<close>, white space,
  digits, white space and \<open>)\<close>. With white space after the dot, or between the identifier
  and the dot, the pattern does not match at the identifier, and the lines
  \<open>name. at(digits)\<close> and \<open>name .at(digits)\<close> yield no issue; the line \<open>name.at (digits)\<close>,
  with white space in the places that allow it, yields exactly the safe-access note.
\<close>
theorem at_follows_dot_at_once:
  assumes "is_identifier name"
    and "list_all is_space sp" "sp \<noteq> []"
    and "list_all is_space sp1" "list_all is_space sp2" "list_all is_space sp3"
    and "list_all is_digit d" "d \<noteq> []"
  shows "((\<exists>b' ms. rx_match vector_at_pattern b s [] = Some (b', s', ms)) \<longleftrightarrow>
        (b = [] \<or> \<not> is_word (hd b))
        \<and> (\<exists>n t1 t2 k t3. s = n @ ''.at'' @ t1 @ ''('' @ t2 @ k @ t3 @ '')'' @ s'
              \<and> is_identifier n \<and> list_all is_space t1 \<and> list_all is_space t2
              \<and> list_all is_space t3 \<and> list_all is_digit k \<and> k \<noteq> []))
    \<and> rx_match vector_at_pattern b (name @ ''.'' @ sp @ rest) [] = None
    \<and> rx_match vector_at_pattern b (name @ sp @ rest) [] = None
    \<and> check_vector_access [name @ ''.'' @ sp @ ''at('' @ d @ '')''] = Inr []
    \<and> check_vector_access [name @ sp @ ''.at('' @ d @ '')''] = Inr []
    \<and> check_vector_access [name @ ''.at'' @ sp1 @ ''('' @ sp2 @ d @ sp3 @ '')''] =
        Inr [''Info: Safe access found using '' @ apos @ name @ ''.at('' @ d @ '')'' @ apos
               @ '' at line 1'']"
proof -
  have 0: "(\<exists>b' ms. rx_match vector_at_pattern b s [] = Some (b', s', ms)) \<longleftrightarrow>
        (b = [] \<or> \<not> is_word (hd b))
        \<and> (\<exists>n t1 t2 k t3. s = n @ ''.at'' @ t1 @ ''('' @ t2 @ k @ t3 @ '')'' @ s'
              \<and> is_identifier n \<and> list_all is_space t1 \<and> list_all is_space t2
              \<and> list_all is_space t3 \<and> list_all is_digit k \<and> k \<noteq> [])"
  proof
    assume "\<exists>b' ms. rx_match vector_at_pattern b s [] = Some (b', s', ms)"
    then obtain b' ms where "rx_match vector_at_pattern b s [] = Some (b', s', ms)" by blast
    from at_match_elim [OF this] obtain n t1 t2 k t3 where
      e: "s = n @ ''.at'' @ t1 @ CHR ''('' # t2 @ k @ t3 @ CHR '')'' # s'"
      and f: "is_identifier n" "list_all is_space t1" "list_all is_space t2"
        "list_all is_space t3" "list_all is_digit k" "k \<noteq> []"
      and w: "b = [] \<or> \<not> is_word (hd b)"
      by blast
    from e have "s = n @ ''.at'' @ t1 @ ''('' @ t2 @ k @ t3 @ '')'' @ s'" by simp
    with f w show "(b = [] \<or> \<not> is_word (hd b))
        \<and> (\<exists>n t1 t2 k t3. s = n @ ''.at'' @ t1 @ ''('' @ t2 @ k @ t3 @ '')'' @ s'
              \<and> is_identifier n \<and> list_all is_space t1 \<and> list_all is_space t2
              \<and> list_all is_space t3 \<and> list_all is_digit k \<and> k \<noteq> [])"
      by blast
  next
    assume a: "(b = [] \<or> \<not> is_word (hd b))
        \<and> (\<exists>n t1 t2 k t3. s = n @ ''.at'' @ t1 @ ''('' @ t2 @ k @ t3 @ '')'' @ s'
              \<and> is_identifier n \<and> list_all is_space t1 \<and> list_all is_space t2
              \<and> list_all is_space t3 \<and> list_all is_digit k \<and> k \<noteq> [])"
    then obtain n t1 t2 k t3 where s: "s = at_text n t1 t2 k t3 @ s'"
      and f: "is_identifier n" "list_all is_space t1" "list_all is_space t2"
        "list_all is_space t3" "list_all is_digit k" "k \<noteq> []"
      by (auto simp: at_text_def)
    from a have b: "b = [] \<or> \<not> is_word (hd b)" by blast
    from at_match_shape [OF f b, of s'] s
    show "\<exists>b' ms. rx_match vector_at_pattern b s [] = Some (b', s', ms)" by simp
  qed
  have 1: "rx_match vector_at_pattern b (name @ ''.'' @ sp @ rest) [] = None"
    using at_space_after_dot [OF assms(1,2,3), of b rest] by simp
  have q1: "rx_match vector_at_pattern b (name @ sp @ rest) [] = None"
    by (rule at_space_before_dot [OF assms(1,2,3)])
  have 2: "check_vector_access [name @ ''.'' @ sp @ ''at('' @ d @ '')''] = Inr []"
    by (rule no_issue_space_after_dot [OF assms(1,2,3,7)])
  have q2: "check_vector_access [name @ sp @ ''.at('' @ d @ '')''] = Inr []"
    by (rule no_issue_space_before_dot [OF assms(1,2,3,7)])
  have 3: "check_vector_access [name @ ''.at'' @ sp1 @ ''('' @ sp2 @ d @ sp3 @ '')''] =
        Inr [at_msg name d 1]"
    by (rule at_flagged_alone [OF assms(1,4,5,6,7,8)])
  have one: "str_nat (Suc 0) = ''1''" by code_simp
  have "at_msg name d 1 = ''Info: Safe access found using '' @ apos @ name @ ''.at('' @ d
      @ '')'' @ apos @ '' at line 1''"
    by (simp add: at_msg_def one del: str_nat.simps)
  with 3 have q3: "check_vector_access [name @ ''.at'' @ sp1 @ ''('' @ sp2 @ d @ sp3 @ '')''] =
        Inr [''Info: Safe access found using '' @ apos @ name @ ''.at('' @ d @ '')'' @ apos
               @ '' at line 1'']" by simp
  from 0 1 q1 2 q2 q3 show ?thesis by (intro conjI)
qed

text \<open>
  The line \<open>v. at(3)\<close> of the claim, the lines \<open>v .at(3)\<close> and \<open>v.at (3)\<close>, and the match
  of the pattern at the start of \<open>v.at( 3 );\<close>.
\<close>
theorem at_follows_dot_at_once_witness:
  "is_identifier ''v'' \<and> list_all is_space '' '' \<and> '' '' \<noteq> [] \<and> list_all is_space []
   \<and> list_all is_digit ''3'' \<and> ''3'' \<noteq> []
   \<and> (\<exists>b' ms. rx_match vector_at_pattern [] ''v.at( 3 );'' [] = Some (b', '';'', ms))
   \<and> rx_match vector_at_pattern [] ''v. at(3)'' [] = None
   \<and> rx_match vector_at_pattern [] ''v .at(3)'' [] = None
   \<and> check_vector_access [''v. at(3)''] = Inr []
   \<and> check_vector_access [''v .at(3)''] = Inr []
   \<and> check_vector_access [''v.at (3)''] =
        Inr [''Info: Safe access found using '' @ apos @ ''v.at(3)'' @ apos @ '' at line 1'']"
proof -
  have h: "is_identifier ''v''" "list_all is_space '' ''" "'' '' \<noteq> []" "list_all is_space []"
    "list_all is_digit ''3''" "''3'' \<noteq> []"
    by code_simp+
  have "rx_match vector_at_pattern [] ''v.at( 3 );'' [] = Some ('') 3 (ta.v'', '';'', [0, 1, 6, 7])"
    by code_simp
  then have m: "\<exists>b' ms. rx_match vector_at_pattern [] ''v.at( 3 );'' [] = Some (b', '';'', ms)"
    by blast
  have r: "rx_match vector_at_pattern [] ''v .at(3)'' [] = None" by code_simp
  show ?thesis
    using at_follows_dot_at_once [OF h(1,2,3,2,4,4,5,6), of "[]" "''v.at( 3 );''" "'';''"
        "''at(3)''"]
      at_follows_dot_at_once [OF h(1,2,3,2,4,4,5,6), of "[]" "''v.at( 3 );''" "'';''"
        "''.at(3)''"] h m r
    by simp
qed

text \<open>
  C6, amended. The report is fixed by the lines together with the order in which the set
  of access records is iterated. For two iteration orders the first scan returns the
  same list, the second scan returns the same warnings with the same multiplicities,
  possibly in another order, and each run prints the report of the first list followed
  by its own second list.
\<close>
theorem report_fixed_up_to_iteration_order:
  assumes "set_iteration iter1" and "set_iteration iter2"
  shows "\<exists>i1 a b.
      check_vector_access file_lines = Inr i1
    \<and> check_empty_before_access iter1 file_lines = Inr a
    \<and> check_empty_before_access iter2 file_lines = Inr b
    \<and> mset a = mset b
    \<and> analyze_cpp_file iter1 (\<lambda>p. Inr file_lines) file_path out
        = (Inr (), out @ report file_path (i1 @ a))
    \<and> analyze_cpp_file iter2 (\<lambda>p. Inr file_lines) file_path out
        = (Inr (), out @ report file_path (i1 @ b))"
proof -
  let ?acc = "vectors_accessed file_lines"
  let ?f = "\<lambda>xs. map (\<lambda>(n, l). missing_msg n l)
      (filter (\<lambda>(n, l). \<not> empty_check_found file_lines n) xs)"
  have a: "check_empty_before_access iter1 file_lines = Inr (?f (iter1 ?acc))"
    by (simp add: check_empty_before_access_total [OF assms(1)] concat_missing_of)
  have b: "check_empty_before_access iter2 file_lines = Inr (?f (iter2 ?acc))"
    by (simp add: check_empty_before_access_total [OF assms(2)] concat_missing_of)
  have "mset (iter1 ?acc) = mset (iter2 ?acc)"
    using assms by (simp add: set_iteration_def)
  then have m: "mset (?f (iter1 ?acc)) = mset (?f (iter2 ?acc))"
    by (simp only: mset_map mset_filter)
  show ?thesis
    using a b m by (simp add: analyze_cpp_file_def check_vector_access_total)
qed

text \<open>
  The line \<open>a[0] b[1]\<close> with the set iterated in insertion order and in the reverse
  order: the same two warnings, in two different orders.
\<close>
theorem report_fixed_up_to_iteration_order_witness:
  "set_iteration id \<and> set_iteration rev
   \<and> check_empty_before_access id [''a[0] b[1]''] = Inr [missing_msg ''a'' 1, missing_msg ''b'' 1]
   \<and> check_empty_before_access rev [''a[0] b[1]''] = Inr [missing_msg ''b'' 1, missing_msg ''a'' 1]
   \<and> mset [missing_msg ''a'' 1, missing_msg ''b'' 1] = mset [missing_msg ''b'' 1, missing_msg ''a'' 1]"
proof -
  have c: "check_empty_before_access id [''a[0] b[1]''] = Inr [missing_msg ''a'' 1, missing_msg ''b'' 1]"
    "check_empty_before_access rev [''a[0] b[1]''] = Inr [missing_msg ''b'' 1, missing_msg ''a'' 1]"
    by code_simp+
  show ?thesis
    using report_fixed_up_to_iteration_order [OF set_iteration_id set_iteration_rev,
        of "[''a[0] b[1]'']" "''f.cpp''" "[]"] c
    by (simp add: set_iteration_id set_iteration_rev del: str_nat.simps)
qed

end
